theory Spec2Isabelle
  imports Main "HOL-Library.AList"
begin

section \<open>Floating panels: the placement manager of the workbench\<close>

text \<open>
  A shallow embedding of \<^verbatim>\<open>floatingPanelService.ts\<close> (class \<^verbatim>\<open>FloatingPanel\<close>, class
  \<^verbatim>\<open>FloatingPanelService\<close>) and of \<^verbatim>\<open>FloatViewAction.run\<close> in
  \<^verbatim>\<open>floatingPanel.contribution.ts\<close>.

  The service mutates two \<^verbatim>\<open>Map\<close>s and a static counter, calls two collaborators (the
  auxiliary window service and the view descriptor service) and fires two events. The
  model threads one record through every method; what the collaborators are asked to do
  and what the two emitters fire is appended, in program order, to a list of effects.
\<close>

subsection \<open>Data\<close>

datatype ViewContainerLocation = Sidebar | Panel | AuxiliaryBar

record Bounds =
  width :: int
  height :: int

text \<open>
  \<^verbatim>\<open>IAuxiliaryWindowOpenOptions\<close>: the service reads \<^verbatim>\<open>bounds\<close> only and hands every
  other field through untouched. \<^verbatim>\<open>IFloatingPanelOpenOptions\<close> extends it.
\<close>

record IAuxiliaryWindowOpenOptions =
  bounds :: "Bounds option"

record IFloatingPanelOpenOptions = IAuxiliaryWindowOpenOptions +
  viewId :: string
  title :: "string option"

text \<open>
  The name of a view descriptor is a string or a localized string with a \<^verbatim>\<open>value\<close>.
\<close>

datatype ViewName = PlainName string | LocalizedName string

record IViewDescriptor =
  descriptorId :: string
  name :: ViewName
  canMoveView :: bool

text \<open>
  A window is referred to by its handle, a position in the store of windows.
  \<^verbatim>\<open>FloatingPanel\<close> has four readonly fields; \<^verbatim>\<open>id\<close> is spelled \<open>panelId\<close> here.
\<close>

record FloatingPanel =
  panelId :: string
  panelViewId :: string
  panelWindow :: nat
  panelContainer :: nat

text \<open>
  Modelled from the spec: the Window Provider (\<^verbatim>\<open>IAuxiliaryWindowService\<close>,
  \<^verbatim>\<open>IAuxiliaryWindow\<close>), whose code is not part of the sources at hand. A window exposes
  an unload notification with a list of subscribers, a destroy operation, a focus request
  and a container handle, and ``must guarantee the unload notification fires exactly once
  per window, at or before destruction completes''. The subscribers of \<open>onUnload\<close> are
  the panels whose constructor registered \<^verbatim>\<open>() => this.onCloseCallback()\<close>.

  Destroying a window ``synchronously or asynchronously triggers'' its unload
  notification: a provider either delivers it inside \<^verbatim>\<open>window.dispose()\<close>, before the
  call returns, or delivers it later, as an event of its own. Which of the two the
  injected provider does is \<open>delivery\<close>.
\<close>

datatype delivery = Synchronous | Asynchronous

record AuxiliaryWindow =
  unloaded :: bool
  disposed :: bool
  onUnload :: "FloatingPanel list"
  windowContainer :: nat

datatype effect =
    WindowOpen IAuxiliaryWindowOpenOptions
  | WindowFocus nat
  | WindowDispose nat
  | MoveViewToLocation IViewDescriptor ViewContainerLocation string
  | DidOpenFloatingPanel FloatingPanel
  | DidCloseFloatingPanel FloatingPanel

datatype error = Rejected string

text \<open>
  The state: how the injected provider delivers unload, the static
  \<^verbatim>\<open>FloatingPanel._idCounter\<close>, the two maps of the service (a JavaScript \<^verbatim>\<open>Map\<close> keeps
  insertion order, so each is an association list), the windows the provider has handed
  out, and the effects so far. The counter is a JavaScript number
  that only ever holds a natural number; it is exact below \<open>2 ^ 53\<close>, a count of windows
  no run reaches, and is modelled as \<open>nat\<close>.
\<close>

record Service =
  unloadDelivery :: delivery
  idCounter :: nat
  floatingPanels :: "(string \<times> FloatingPanel) list"
  floatingPanelsByViewId :: "(string \<times> FloatingPanel) list"
  windows :: "AuxiliaryWindow list"
  effects :: "effect list"

definition initial :: "delivery \<Rightarrow> Service" where
  "initial d = \<lparr>unloadDelivery = d, idCounter = 0, floatingPanels = [],
     floatingPanelsByViewId = [], windows = [], effects = []\<rparr>"

subsection \<open>Panel ids\<close>

text \<open>
  \<^verbatim>\<open>`floating-panel-${FloatingPanel._idCounter++}`\<close>: the counter in decimal, without
  leading zeros. \<open>digit_char\<close> is only ever applied to a number below ten.
\<close>

definition digit_char :: "nat \<Rightarrow> char" where
  "digit_char d = ''0123456789'' ! d"

fun string_of_nat :: "nat \<Rightarrow> string" where
  "string_of_nat n =
     (if n < 10 then [digit_char n]
      else string_of_nat (n div 10) @ [digit_char (n mod 10)])"

declare string_of_nat.simps [simp del]

definition make_id :: "nat \<Rightarrow> string" where
  "make_id n = ''floating-panel-'' @ string_of_nat n"

subsection \<open>The cleanup of the service\<close>

text \<open>
  \<^verbatim>\<open>FloatingPanelService.handlePanelClosed\<close>, the callback every panel is constructed with:
  two deletions by key and the close event. It stands here because the unload
  notification below runs it.
\<close>

definition handlePanelClosed :: "FloatingPanel \<Rightarrow> Service \<Rightarrow> Service" where
  "handlePanelClosed panel s =
     s\<lparr>floatingPanels := AList.delete (panelId panel) (floatingPanels s),
       floatingPanelsByViewId := AList.delete (panelViewId panel) (floatingPanelsByViewId s),
       effects := effects s @ [DidCloseFloatingPanel panel]\<rparr>"

subsection \<open>The window provider\<close>

text \<open>
  Modelled from the spec: the unload notification of window \<open>w\<close>. It fires at most once;
  each subscriber runs the callback of its panel, which is \<open>handlePanelClosed\<close> of the
  service. A user closing the window from outside is this function on its own, and so
  is the later delivery by a provider that delivers asynchronously.
\<close>

definition fireUnload :: "nat \<Rightarrow> Service \<Rightarrow> Service" where
  "fireUnload w s =
     (if w < length (windows s) \<and> \<not> unloaded (windows s ! w)
      then fold handlePanelClosed (onUnload (windows s ! w))
             (s\<lparr>windows := (windows s)[w := (windows s ! w)\<lparr>unloaded := True\<rparr>]\<rparr>)
      else s)"

text \<open>
  Modelled from the spec: \<^verbatim>\<open>window.dispose()\<close>, the destroy operation. The call is
  recorded. On a window not yet destroyed, a provider that delivers synchronously fires
  the unload notification (unless it has fired) before the call returns; one that
  delivers asynchronously returns at once, and the notification comes later as
  \<open>fireUnload\<close>. A second call is recorded and changes nothing else.
\<close>

definition windowDispose :: "nat \<Rightarrow> Service \<Rightarrow> Service" where
  "windowDispose w s =
     (let s0 = s\<lparr>effects := effects s @ [WindowDispose w]\<rparr>
      in if w < length (windows s) \<and> \<not> disposed (windows s ! w)
         then (let s1 = (case unloadDelivery s of
                           Synchronous \<Rightarrow> fireUnload w s0
                         | Asynchronous \<Rightarrow> s0)
               in s1\<lparr>windows := (windows s1)[w := (windows s1 ! w)\<lparr>disposed := True\<rparr>]\<rparr>)
         else s0)"

text \<open>
  Modelled from the spec: \<^verbatim>\<open>window.onUnload(listener)\<close> and the disposable it returns.
\<close>

definition subscribeUnload :: "nat \<Rightarrow> FloatingPanel \<Rightarrow> Service \<Rightarrow> Service" where
  "subscribeUnload w panel s =
     (if w < length (windows s)
      then s\<lparr>windows := (windows s)[w := (windows s ! w)\<lparr>onUnload := onUnload (windows s ! w) @ [panel]\<rparr>]\<rparr>
      else s)"

definition unsubscribeUnload :: "nat \<Rightarrow> FloatingPanel \<Rightarrow> Service \<Rightarrow> Service" where
  "unsubscribeUnload w panel s =
     (if w < length (windows s)
      then s\<lparr>windows := (windows s)[w := (windows s ! w)\<lparr>onUnload := remove1 panel (onUnload (windows s ! w))\<rparr>]\<rparr>
      else s)"

text \<open>
  Modelled from the spec: a successful \<^verbatim>\<open>auxiliaryWindowService.open\<close> hands out a new
  window, live and without subscribers, with the container the provider chose.
\<close>

definition newWindow :: "nat \<Rightarrow> Service \<Rightarrow> nat \<times> Service" where
  "newWindow c s =
     (length (windows s),
      s\<lparr>windows := windows s @ [\<lparr>unloaded = False, disposed = False, onUnload = [], windowContainer = c\<rparr>]\<rparr>)"

subsection \<open>Class FloatingPanel\<close>

text \<open>
  The constructor takes the next id from the static counter and registers the unload
  listener in the panel's own store.
\<close>

definition FloatingPanel_new :: "string \<Rightarrow> nat \<Rightarrow> nat \<Rightarrow> Service \<Rightarrow> FloatingPanel \<times> Service" where
  "FloatingPanel_new v w c s =
     (let panel = \<lparr>panelId = make_id (idCounter s), panelViewId = v, panelWindow = w, panelContainer = c\<rparr>
      in (panel, subscribeUnload w panel (s\<lparr>idCounter := idCounter s + 1\<rparr>)))"

definition bringToFront :: "FloatingPanel \<Rightarrow> Service \<Rightarrow> Service" where
  "bringToFront panel s = s\<lparr>effects := effects s @ [WindowFocus (panelWindow panel)]\<rparr>"

text \<open>
  \<^verbatim>\<open>dispose\<close>: first \<^verbatim>\<open>this.window.dispose()\<close>, then \<^verbatim>\<open>super.dispose()\<close>, which disposes
  the panel's store and with it the unload subscription.
\<close>

definition FloatingPanel_dispose :: "FloatingPanel \<Rightarrow> Service \<Rightarrow> Service" where
  "FloatingPanel_dispose panel s =
     unsubscribeUnload (panelWindow panel) panel (windowDispose (panelWindow panel) s)"

definition FloatingPanel_close :: "FloatingPanel \<Rightarrow> Service \<Rightarrow> Service" where
  "FloatingPanel_close panel s = FloatingPanel_dispose panel s"

subsection \<open>Class FloatingPanelService\<close>

definition getFloatingPanel :: "string \<Rightarrow> Service \<Rightarrow> FloatingPanel option" where
  "getFloatingPanel pid s = map_of (floatingPanels s) pid"

definition getFloatingPanelByViewId :: "string \<Rightarrow> Service \<Rightarrow> FloatingPanel option" where
  "getFloatingPanelByViewId v s = map_of (floatingPanelsByViewId s) v"

definition getAllFloatingPanels :: "Service \<Rightarrow> FloatingPanel list" where
  "getAllFloatingPanels s = map snd (floatingPanels s)"

definition isViewFloating :: "string \<Rightarrow> Service \<Rightarrow> bool" where
  "isViewFloating v s = (map_of (floatingPanelsByViewId s) v \<noteq> None)"

text \<open>
  \<^verbatim>\<open>openFloatingPanel\<close> is \<^verbatim>\<open>async\<close> with one \<^verbatim>\<open>await\<close>. Up to the \<^verbatim>\<open>await\<close> it runs
  without interruption: it either returns the existing panel or has asked the provider for
  a window and is suspended, holding \<^verbatim>\<open>viewId\<close>. It resumes with the provider's answer:
  a rejection, which it passes on, or a window.
\<close>

definition defaultBounds :: Bounds where
  "defaultBounds = \<lparr>width = 400, height = 300\<rparr>"

definition windowOptions :: "IFloatingPanelOpenOptions \<Rightarrow> IAuxiliaryWindowOpenOptions" where
  "windowOptions options =
     \<lparr>bounds = Some (case bounds options of None \<Rightarrow> defaultBounds | Some b \<Rightarrow> b)\<rparr>"

datatype progress = Returned FloatingPanel | Awaiting string

definition openFloatingPanel_begin :: "IFloatingPanelOpenOptions \<Rightarrow> Service \<Rightarrow> progress \<times> Service" where
  "openFloatingPanel_begin options s =
     (case map_of (floatingPanelsByViewId s) (viewId options) of
        Some existing \<Rightarrow> (Returned existing, bringToFront existing s)
      | None \<Rightarrow> (Awaiting (viewId options),
                 s\<lparr>effects := effects s @ [WindowOpen (windowOptions options)]\<rparr>))"

definition openFloatingPanel_resume :: "string \<Rightarrow> error + nat \<Rightarrow> Service \<Rightarrow> (error + FloatingPanel) \<times> Service" where
  "openFloatingPanel_resume v answer s =
     (case answer of
        Inl e \<Rightarrow> (Inl e, s)
      | Inr c \<Rightarrow>
          (let (w, s1) = newWindow c s;
               (panel, s2) = FloatingPanel_new v w c s1;
               s3 = s2\<lparr>floatingPanels := AList.update (panelId panel) panel (floatingPanels s2)\<rparr>;
               s4 = s3\<lparr>floatingPanelsByViewId := AList.update v panel (floatingPanelsByViewId s3)\<rparr>;
               s5 = s4\<lparr>effects := effects s4 @ [DidOpenFloatingPanel panel]\<rparr>
           in (Inr panel, s5)))"

text \<open>A call that no other call overlaps: begin, then resume with the provider's answer.\<close>

definition openFloatingPanel :: "IFloatingPanelOpenOptions \<Rightarrow> error + nat \<Rightarrow> Service \<Rightarrow> (error + FloatingPanel) \<times> Service" where
  "openFloatingPanel options answer s =
     (case openFloatingPanel_begin options s of
        (Returned existing, s') \<Rightarrow> (Inr existing, s')
      | (Awaiting v, s') \<Rightarrow> openFloatingPanel_resume v answer s')"

definition closeFloatingPanel :: "string \<Rightarrow> Service \<Rightarrow> Service" where
  "closeFloatingPanel pid s =
     (case map_of (floatingPanels s) pid of
        Some panel \<Rightarrow> FloatingPanel_close panel s
      | None \<Rightarrow> s)"

definition dockFloatingPanel :: "(string \<Rightarrow> IViewDescriptor option) \<Rightarrow> string \<Rightarrow> ViewContainerLocation \<Rightarrow> Service \<Rightarrow> Service" where
  "dockFloatingPanel getViewDescriptorById pid location s =
     (case map_of (floatingPanels s) pid of
        None \<Rightarrow> s
      | Some panel \<Rightarrow>
          (let s1 = (case getViewDescriptorById (panelViewId panel) of
                       Some viewDescriptor \<Rightarrow>
                         if canMoveView viewDescriptor
                         then s\<lparr>effects := effects s @ [MoveViewToLocation viewDescriptor location ''dock'']\<rparr>
                         else s
                     | None \<Rightarrow> s)
           in FloatingPanel_close panel s1))"

subsection \<open>The Float View command\<close>

text \<open>
  \<^verbatim>\<open>FloatViewAction.run(accessor, viewId?)\<close>. An optional string is falsy when it is
  undefined or empty. The second argument here is what \<^verbatim>\<open>getFocusedViewName()\<close> returns.
\<close>

definition truthy :: "string option \<Rightarrow> bool" where
  "truthy x = (case x of None \<Rightarrow> False | Some v \<Rightarrow> v \<noteq> [])"

definition viewTitle :: "IViewDescriptor \<Rightarrow> string" where
  "viewTitle viewDescriptor = (case name viewDescriptor of PlainName n \<Rightarrow> n | LocalizedName n \<Rightarrow> n)"

definition FloatViewAction_run ::
  "(string \<Rightarrow> IViewDescriptor option) \<Rightarrow> string option \<Rightarrow> string option \<Rightarrow> error + nat
     \<Rightarrow> Service \<Rightarrow> (error + unit) \<times> Service" where
  "FloatViewAction_run getViewDescriptorById focusedView viewIdArg answer s =
     (case (if truthy viewIdArg then viewIdArg else None) of
        None \<Rightarrow> (if truthy focusedView then (Inr (), s) else (Inr (), s))
      | Some v \<Rightarrow>
          (case getViewDescriptorById v of
             None \<Rightarrow> (Inr (), s)
           | Some viewDescriptor \<Rightarrow>
               if isViewFloating v s
               then (case getFloatingPanelByViewId v s of
                       Some panel \<Rightarrow> (Inr (), bringToFront panel s)
                     | None \<Rightarrow> (Inr (), s))
               else (case openFloatingPanel
                            \<lparr>bounds = Some \<lparr>width = 500, height = 400\<rparr>, viewId = v,
                             title = Some (viewTitle viewDescriptor)\<rparr> answer s of
                       (Inl e, s') \<Rightarrow> (Inl e, s')
                     | (Inr panel, s') \<Rightarrow> (Inr (), s'))))"

subsection \<open>Reading the effects\<close>

text \<open>The panels the open event and the close event were fired for, in order.\<close>

fun opened :: "effect list \<Rightarrow> FloatingPanel list" where
  "opened [] = []"
| "opened (DidOpenFloatingPanel p # es) = p # opened es"
| "opened (e # es) = opened es"

fun closed :: "effect list \<Rightarrow> FloatingPanel list" where
  "closed [] = []"
| "closed (DidCloseFloatingPanel p # es) = p # closed es"
| "closed (e # es) = closed es"

fun openRequests :: "effect list \<Rightarrow> IAuxiliaryWindowOpenOptions list" where
  "openRequests [] = []"
| "openRequests (WindowOpen options # es) = options # openRequests es"
| "openRequests (e # es) = openRequests es"

subsection \<open>Runs of the manager\<close>

text \<open>
  What can happen to one manager, one step at a time, on the single cooperative thread:
  a call of \<^verbatim>\<open>openFloatingPanel\<close> runs up to its \<^verbatim>\<open>await\<close>; a suspended call resumes with
  the provider's answer; \<^verbatim>\<open>closeFloatingPanel\<close>; \<^verbatim>\<open>dockFloatingPanel\<close> (with the registry
  as it is at that moment); a window unloads (closed from outside, or the late delivery
  for a window destroyed before); a caller that was handed a
  panel (the \<open>i\<close>-th one ever opened) calls its \<^verbatim>\<open>close()\<close>. The system is the service
  together with the view ids of the suspended calls.
\<close>

datatype action =
    Begin IFloatingPanelOpenOptions
  | Resume nat "error + nat"
  | Close string
  | Dock "string \<Rightarrow> IViewDescriptor option" string ViewContainerLocation
  | Unload nat
  | PanelClose nat

fun step :: "action \<Rightarrow> Service \<times> string list \<Rightarrow> Service \<times> string list" where
  "step (Begin options) (s, q) =
     (case openFloatingPanel_begin options s of
        (Returned existing, s') \<Rightarrow> (s', q)
      | (Awaiting v, s') \<Rightarrow> (s', q @ [v]))"
| "step (Resume i answer) (s, q) =
     (if i < length q
      then (snd (openFloatingPanel_resume (q ! i) answer s), take i q @ drop (Suc i) q)
      else (s, q))"
| "step (Close pid) (s, q) = (closeFloatingPanel pid s, q)"
| "step (Dock reg pid location) (s, q) = (dockFloatingPanel reg pid location s, q)"
| "step (Unload w) (s, q) = (fireUnload w s, q)"
| "step (PanelClose i) (s, q) =
     (if i < length (opened (effects s)) then FloatingPanel_close (opened (effects s) ! i) s else s, q)"

fun run :: "action list \<Rightarrow> Service \<times> string list \<Rightarrow> Service \<times> string list" where
  "run [] \<sigma> = \<sigma>"
| "run (a # as) \<sigma> = run as (step a \<sigma>)"

text \<open>The state after a run from the start, with a provider of delivery \<open>d\<close>.\<close>

definition after :: "delivery \<Rightarrow> action list \<Rightarrow> Service" where
  "after d as = fst (run as (initial d, []))"

text \<open>The same operations when no two calls overlap.\<close>

datatype operation =
    OpenFloatingPanel IFloatingPanelOpenOptions "error + nat"
  | CloseFloatingPanel string
  | DockFloatingPanel "string \<Rightarrow> IViewDescriptor option" string ViewContainerLocation
  | WindowUnload nat

fun exec :: "operation \<Rightarrow> Service \<Rightarrow> Service" where
  "exec (OpenFloatingPanel options answer) s = snd (openFloatingPanel options answer s)"
| "exec (CloseFloatingPanel pid) s = closeFloatingPanel pid s"
| "exec (DockFloatingPanel reg pid location) s = dockFloatingPanel reg pid location s"
| "exec (WindowUnload w) s = fireUnload w s"

subsection \<open>Invariants\<close>

text \<open>
  A panel is attached when its window is live (neither unloaded nor destroyed) and the
  panel is its one subscriber. A window is detached when the provider delivers
  asynchronously and the window has been destroyed and has no subscriber left.
\<close>

definition attached :: "Service \<Rightarrow> FloatingPanel \<Rightarrow> bool" where
  "attached s p \<longleftrightarrow>
     \<not> unloaded (windows s ! panelWindow p) \<and> \<not> disposed (windows s ! panelWindow p) \<and>
     onUnload (windows s ! panelWindow p) = [p]"

definition detached :: "Service \<Rightarrow> nat \<Rightarrow> bool" where
  "detached s w \<longleftrightarrow>
     unloadDelivery s = Asynchronous \<and> disposed (windows s ! w) \<and> onUnload (windows s ! w) = []"

text \<open>
  What every state of a run satisfies, whether or not calls overlap and however the
  provider delivers: the keys of each map are distinct; the ids of the panels ever opened
  are the successive values of the counter, and their windows the successive windows the
  provider handed out; a panel in \<open>floatingPanels\<close> sits under its own id, was announced,
  and is attached or its window detached; a panel in \<open>floatingPanelsByViewId\<close> sits under
  its own view id and is in \<open>floatingPanels\<close>; a window that has not unloaded has an
  attached panel in \<open>floatingPanels\<close> or is detached; the close event has fired once for
  each panel that was opened and is gone, and for no other; the window of a panel that is
  gone has unloaded.
\<close>

definition keysDistinct :: "Service \<Rightarrow> bool" where
  "keysDistinct s \<longleftrightarrow>
     distinct (map fst (floatingPanels s)) \<and> distinct (map fst (floatingPanelsByViewId s))"

definition idsInOrder :: "Service \<Rightarrow> bool" where
  "idsInOrder s \<longleftrightarrow> map panelId (opened (effects s)) = map make_id [0..<idCounter s]"

definition windowsInOrder :: "Service \<Rightarrow> bool" where
  "windowsInOrder s \<longleftrightarrow> map panelWindow (opened (effects s)) = [0..<length (windows s)]"

definition panelsWired :: "Service \<Rightarrow> bool" where
  "panelsWired s \<longleftrightarrow>
     (\<forall>k p. map_of (floatingPanels s) k = Some p \<longrightarrow>
        panelId p = k \<and> p \<in> set (opened (effects s)) \<and>
        (attached s p \<or> detached s (panelWindow p)))"

definition indexSound :: "Service \<Rightarrow> bool" where
  "indexSound s \<longleftrightarrow>
     (\<forall>v p. map_of (floatingPanelsByViewId s) v = Some p \<longrightarrow>
        panelViewId p = v \<and> map_of (floatingPanels s) (panelId p) = Some p)"

definition windowsWired :: "Service \<Rightarrow> bool" where
  "windowsWired s \<longleftrightarrow>
     (\<forall>w<length (windows s). \<not> unloaded (windows s ! w) \<longrightarrow>
        (\<exists>p. attached s p \<and> panelWindow p = w \<and>
             map_of (floatingPanels s) (panelId p) = Some p) \<or>
        detached s w)"

definition closedOnce :: "Service \<Rightarrow> bool" where
  "closedOnce s \<longleftrightarrow>
     (\<forall>p. count_list (closed (effects s)) p =
        (if p \<in> set (opened (effects s)) \<and> map_of (floatingPanels s) (panelId p) \<noteq> Some p
         then 1 else 0))"

definition windowsOwned :: "Service \<Rightarrow> bool" where
  "windowsOwned s \<longleftrightarrow>
     (\<forall>p \<in> set (opened (effects s)).
        map_of (floatingPanels s) (panelId p) \<noteq> Some p \<longrightarrow> unloaded (windows s ! panelWindow p))"

definition wellformed :: "Service \<Rightarrow> bool" where
  "wellformed s \<longleftrightarrow>
     keysDistinct s \<and> idsInOrder s \<and> windowsInOrder s \<and> panelsWired s \<and> indexSound s \<and>
     windowsWired s \<and> closedOnce s \<and> windowsOwned s"

text \<open>
  The invariant of the two maps: a panel stored in one is stored in the other, under its
  own id and its own view id, and no two entries of a map hold panels of one view.
\<close>

definition consistent :: "Service \<Rightarrow> bool" where
  "consistent s \<longleftrightarrow>
     (\<forall>v p. getFloatingPanelByViewId v s = Some p \<longrightarrow>
        panelViewId p = v \<and> getFloatingPanel (panelId p) s = Some p) \<and>
     (\<forall>k p. getFloatingPanel k s = Some p \<longrightarrow>
        panelId p = k \<and> getFloatingPanelByViewId (panelViewId p) s = Some p) \<and>
     (\<forall>k k' p p'. getFloatingPanel k s = Some p \<and> getFloatingPanel k' s = Some p' \<and>
        panelViewId p = panelViewId p' \<longrightarrow> k = k') \<and>
     (\<forall>v v' p p'. getFloatingPanelByViewId v s = Some p \<and> getFloatingPanelByViewId v' s = Some p' \<and>
        panelViewId p = panelViewId p' \<longrightarrow> v = v')"

text \<open>
  The state a closure of panel \<open>p\<close> leads to: both entries deleted, the effects \<open>es\<close> and
  then the close event appended, the panel's window replaced by \<open>X\<close>.
\<close>

definition closure :: "FloatingPanel \<Rightarrow> effect list \<Rightarrow> AuxiliaryWindow \<Rightarrow> Service \<Rightarrow> Service" where
  "closure p es X s =
     s\<lparr>floatingPanels := AList.delete (panelId p) (floatingPanels s),
       floatingPanelsByViewId := AList.delete (panelViewId p) (floatingPanelsByViewId s),
       windows := (windows s)[panelWindow p := X],
       effects := effects s @ es @ [DidCloseFloatingPanel p]\<rparr>"

text \<open>The state after a change to window \<open>w\<close> alone, with the effects \<open>es\<close> appended.\<close>

definition rewindowed :: "nat \<Rightarrow> AuxiliaryWindow \<Rightarrow> effect list \<Rightarrow> Service \<Rightarrow> Service" where
  "rewindowed w Y es s = s\<lparr>windows := (windows s)[w := Y], effects := effects s @ es\<rparr>"

text \<open>The panel a resumed call constructs, and the state it leaves.\<close>

definition newPanel :: "string \<Rightarrow> nat \<Rightarrow> Service \<Rightarrow> FloatingPanel" where
  "newPanel v c s = \<lparr>panelId = make_id (idCounter s), panelViewId = v,
     panelWindow = length (windows s), panelContainer = c\<rparr>"

definition insertion :: "string \<Rightarrow> nat \<Rightarrow> Service \<Rightarrow> Service" where
  "insertion v c s =
     s\<lparr>idCounter := Suc (idCounter s),
       floatingPanels := AList.update (make_id (idCounter s)) (newPanel v c s) (floatingPanels s),
       floatingPanelsByViewId := AList.update v (newPanel v c s) (floatingPanelsByViewId s),
       windows := windows s @
         [\<lparr>unloaded = False, disposed = False, onUnload = [newPanel v c s], windowContainer = c\<rparr>],
       effects := effects s @ [DidOpenFloatingPanel (newPanel v c s)]\<rparr>"

text \<open>What \<open>dockFloatingPanel\<close> asks of the registry for a panel of view \<open>v\<close>.\<close>

definition relocation :: "(string \<Rightarrow> IViewDescriptor option) \<Rightarrow> string \<Rightarrow> ViewContainerLocation \<Rightarrow> effect list" where
  "relocation reg v location =
     (case reg v of
        None \<Rightarrow> []
      | Some d \<Rightarrow> if canMoveView d then [MoveViewToLocation d location ''dock''] else [])"


definition indexComplete :: "Service \<Rightarrow> bool" where
  "indexComplete s \<longleftrightarrow>
     (\<forall>k p. map_of (floatingPanels s) k = Some p \<longrightarrow>
        map_of (floatingPanelsByViewId s) (panelViewId p) = Some p)"

fun execs :: "operation list \<Rightarrow> Service \<Rightarrow> Service" where
  "execs [] s = s"
| "execs (op # ops) s = execs ops (exec op s)"

subsection \<open>A sample run\<close>

definition explorerOptions :: IFloatingPanelOpenOptions where
  "explorerOptions = \<lparr>bounds = None, viewId = ''explorer'', title = None\<rparr>"

definition explorerPanel :: FloatingPanel where
  "explorerPanel = \<lparr>panelId = ''floating-panel-0'', panelViewId = ''explorer'',
     panelWindow = 0, panelContainer = 7\<rparr>"

definition explorerDescriptor :: IViewDescriptor where
  "explorerDescriptor = \<lparr>descriptorId = ''explorer'', name = PlainName ''Explorer'', canMoveView = True\<rparr>"

definition registry :: "string \<Rightarrow> IViewDescriptor option" where
  "registry v = (if v = ''explorer'' then Some explorerDescriptor else None)"


definition explorerState :: Service where
  "explorerState =
     \<lparr>unloadDelivery = Synchronous, idCounter = 1, floatingPanels = [(''floating-panel-0'', explorerPanel)],
      floatingPanelsByViewId = [(''explorer'', explorerPanel)],
      windows = [\<lparr>unloaded = False, disposed = False, onUnload = [explorerPanel], windowContainer = 7\<rparr>],
      effects = [WindowOpen \<lparr>bounds = Some \<lparr>width = 400, height = 300\<rparr>\<rparr>,
                 DidOpenFloatingPanel explorerPanel]\<rparr>"



text \<open>Two calls for one view, both begun before either resumes.\<close>

definition overlappingRun :: "action list" where
  "overlappingRun =
     [Begin explorerOptions, Begin explorerOptions, Resume 0 (Inr 7), Resume 0 (Inr 8)]"

section \<open>Properties\<close>

subsection \<open>Auxiliary facts\<close>

lemma opened_append [simp]: "opened (xs @ ys) = opened xs @ opened ys"
  by (induction xs rule: opened.induct) simp_all

lemma closed_append [simp]: "closed (xs @ ys) = closed xs @ closed ys"
  by (induction xs rule: closed.induct) simp_all

lemma openRequests_append [simp]: "openRequests (xs @ ys) = openRequests xs @ openRequests ys"
  by (induction xs rule: openRequests.induct) simp_all


subsection \<open>Decimal ids are injective\<close>

lemma below_ten:
  "(d::nat) < 10 \<Longrightarrow> d = 0 \<or> d = 1 \<or> d = 2 \<or> d = 3 \<or> d = 4 \<or> d = 5 \<or> d = 6 \<or> d = 7 \<or> d = 8 \<or> d = 9"
  by arith

lemma digit_char_code: "d < 10 \<Longrightarrow> of_char (digit_char d) = 48 + d"
  by (drule below_ten) (auto simp add: digit_char_def)

lemma digit_char_inj:
  assumes "a < 10" "b < 10" "digit_char a = digit_char b"
  shows "a = b"
proof -
  have "(of_char (digit_char a) :: nat) = of_char (digit_char b)"
    using assms(3) by simp
  then show ?thesis
    using assms(1,2) by (simp add: digit_char_code)
qed

lemma string_of_nat_nonempty: "string_of_nat n \<noteq> []"
  by (subst string_of_nat.simps) simp

lemma string_of_nat_inj: "string_of_nat m = string_of_nat n \<Longrightarrow> m = n"
proof (induction m arbitrary: n rule: string_of_nat.induct)
  case (1 m)
  show ?case
  proof (cases "m < 10")
    case True
    then have n: "n < 10"
      using "1.prems" string_of_nat_nonempty [of "n div 10"]
      by (subst (asm) string_of_nat.simps, subst (asm) (2) string_of_nat.simps) (auto split: if_splits)
    with True "1.prems" show ?thesis
      by (subst (asm) string_of_nat.simps, subst (asm) (2) string_of_nat.simps)
        (auto dest: digit_char_inj)
  next
    case False
    then have n: "\<not> n < 10"
      using "1.prems" string_of_nat_nonempty [of "m div 10"]
      by (subst (asm) string_of_nat.simps, subst (asm) (2) string_of_nat.simps) (auto split: if_splits)
    from False n "1.prems"
    have e: "string_of_nat (m div 10) = string_of_nat (n div 10)"
      "digit_char (m mod 10) = digit_char (n mod 10)"
      by (subst (asm) string_of_nat.simps, subst (asm) (2) string_of_nat.simps, simp)+
    from "1.IH" [OF False e(1)] have "m div 10 = n div 10" .
    moreover from e(2) have "m mod 10 = n mod 10"
      by (auto dest!: digit_char_inj [rotated 2])
    ultimately show ?thesis
      by (metis div_mult_mod_eq)
  qed
qed

lemma make_id_inj [simp]: "make_id m = make_id n \<longleftrightarrow> m = n"
  by (auto simp add: make_id_def dest: string_of_nat_inj)

lemma inj_make_id: "inj make_id"
  by (simp add: inj_def)

subsection \<open>What the operations do to the state\<close>

lemma resume_Inl: "openFloatingPanel_resume v (Inl e) s = (Inl e, s)"
  by (simp add: openFloatingPanel_resume_def)

lemma resume_Inr: "openFloatingPanel_resume v (Inr c) s = (Inr (newPanel v c s), insertion v c s)"
  by (simp add: openFloatingPanel_resume_def newWindow_def FloatingPanel_new_def subscribeUnload_def
      Let_def newPanel_def insertion_def)

lemma newPanel_sel [simp]:
  "panelId (newPanel v c s) = make_id (idCounter s)" "panelViewId (newPanel v c s) = v"
  "panelWindow (newPanel v c s) = length (windows s)"
  by (simp_all add: newPanel_def)

lemma openFloatingPanel_state:
  "snd (openFloatingPanel options answer s) =
     (case map_of (floatingPanelsByViewId s) (viewId options) of
        Some existing \<Rightarrow> s\<lparr>effects := effects s @ [WindowFocus (panelWindow existing)]\<rparr>
      | None \<Rightarrow>
          (case answer of
             Inl e \<Rightarrow> s\<lparr>effects := effects s @ [WindowOpen (windowOptions options)]\<rparr>
           | Inr c \<Rightarrow> insertion (viewId options) c
                       (s\<lparr>effects := effects s @ [WindowOpen (windowOptions options)]\<rparr>)))"
  by (simp add: openFloatingPanel_def openFloatingPanel_begin_def bringToFront_def resume_Inr
      resume_Inl split: option.splits sum.splits)

lemma relocation_events [simp]:
  "opened (relocation reg v location) = []" "closed (relocation reg v location) = []"
  by (simp_all add: relocation_def split: option.splits)


lemma opened_window:
  assumes "windowsInOrder s" "p \<in> set (opened (effects s))"
  shows "panelWindow p < length (windows s)"
proof -
  from assms(2) have "panelWindow p \<in> set (map panelWindow (opened (effects s)))" by simp
  with assms(1) have "panelWindow p \<in> set [0..<length (windows s)]"
    by (simp only: windowsInOrder_def)
  then show ?thesis by simp
qed

lemma window_unique:
  assumes "windowsInOrder s" "p \<in> set (opened (effects s))" "q \<in> set (opened (effects s))"
    "panelWindow p = panelWindow q"
  shows "p = q"
proof -
  from assms(1) have "distinct (map panelWindow (opened (effects s)))"
    by (simp add: windowsInOrder_def)
  then have "inj_on panelWindow (set (opened (effects s)))"
    by (simp add: distinct_map)
  with assms(2,3,4) show ?thesis by (auto dest: inj_onD)
qed


lemma live_opened:
  "panelsWired s \<Longrightarrow> map_of (floatingPanels s) k = Some p \<Longrightarrow> p \<in> set (opened (effects s))"
  by (auto simp add: panelsWired_def)

lemma live_attached:
  "panelsWired s \<Longrightarrow> unloadDelivery s = Synchronous \<Longrightarrow> map_of (floatingPanels s) k = Some p \<Longrightarrow>
     attached s p"
  by (auto simp add: panelsWired_def detached_def)

lemma fireUnload_closure:
  assumes "attached s p" "panelWindow p < length (windows s)"
  shows "fireUnload (panelWindow p) s =
     closure p [] ((windows s ! panelWindow p)\<lparr>unloaded := True\<rparr>) s"
  using assms
  by (auto simp add: attached_def fireUnload_def closure_def handlePanelClosed_def)

lemma fireUnload_cases:
  assumes "windowsWired s"
  shows "fireUnload w s = s \<or>
     (\<exists>p. map_of (floatingPanels s) (panelId p) = Some p \<and> panelWindow p = w \<and>
        fireUnload w s = closure p [] ((windows s ! w)\<lparr>unloaded := True\<rparr>) s) \<or>
     (w < length (windows s) \<and> detached s w \<and>
        fireUnload w s = rewindowed w ((windows s ! w)\<lparr>unloaded := True\<rparr>) [] s)"
proof (cases "w < length (windows s) \<and> \<not> unloaded (windows s ! w)")
  case True
  with assms have "(\<exists>p. attached s p \<and> panelWindow p = w \<and>
       map_of (floatingPanels s) (panelId p) = Some p) \<or> detached s w"
    by (simp add: windowsWired_def)
  then show ?thesis
  proof
    assume "\<exists>p. attached s p \<and> panelWindow p = w \<and> map_of (floatingPanels s) (panelId p) = Some p"
    then obtain p where p: "attached s p" "panelWindow p = w"
      "map_of (floatingPanels s) (panelId p) = Some p"
      by blast
    from fireUnload_closure [OF p(1)] p(2,3) True show ?thesis by auto
  next
    assume d: "detached s w"
    with True have "fireUnload w s = rewindowed w ((windows s ! w)\<lparr>unloaded := True\<rparr>) [] s"
      by (simp add: fireUnload_def detached_def rewindowed_def)
    with d True show ?thesis by simp
  qed
next
  case False
  then show ?thesis by (auto simp add: fireUnload_def)
qed

lemma close_closure:
  assumes "unloadDelivery s = Synchronous" "attached s p" "panelWindow p < length (windows s)"
  shows "FloatingPanel_close p s =
     closure p [WindowDispose (panelWindow p)]
       ((windows s ! panelWindow p)\<lparr>unloaded := True, disposed := True, onUnload := []\<rparr>) s"
  using assms
  by (simp add: FloatingPanel_close_def FloatingPanel_dispose_def windowDispose_def attached_def
      unsubscribeUnload_def fireUnload_def handlePanelClosed_def closure_def Let_def)

lemma close_rewindowed:
  assumes "panelWindow p < length (windows s)"
    "unloadDelivery s = Asynchronous \<or> unloaded (windows s ! panelWindow p) \<or>
     disposed (windows s ! panelWindow p)"
  shows "\<exists>Y. disposed Y \<and> unloaded Y = unloaded (windows s ! panelWindow p) \<and>
     onUnload Y = remove1 p (onUnload (windows s ! panelWindow p)) \<and>
     FloatingPanel_close p s = rewindowed (panelWindow p) Y [WindowDispose (panelWindow p)] s"
proof (cases "disposed (windows s ! panelWindow p)")
  case True
  let ?Y = "(windows s ! panelWindow p)\<lparr>onUnload := remove1 p (onUnload (windows s ! panelWindow p))\<rparr>"
  from True assms(1) have "FloatingPanel_close p s =
      rewindowed (panelWindow p) ?Y [WindowDispose (panelWindow p)] s"
    by (simp add: FloatingPanel_close_def FloatingPanel_dispose_def windowDispose_def
        unsubscribeUnload_def rewindowed_def Let_def)
  moreover from True have "disposed ?Y" "unloaded ?Y = unloaded (windows s ! panelWindow p)"
    "onUnload ?Y = remove1 p (onUnload (windows s ! panelWindow p))"
    by simp_all
  ultimately show ?thesis by blast
next
  case False
  let ?Y = "(windows s ! panelWindow p)\<lparr>disposed := True,
      onUnload := remove1 p (onUnload (windows s ! panelWindow p))\<rparr>"
  from False assms have "FloatingPanel_close p s =
      rewindowed (panelWindow p) ?Y [WindowDispose (panelWindow p)] s"
    by (cases "unloadDelivery s")
      (auto simp add: FloatingPanel_close_def FloatingPanel_dispose_def windowDispose_def
        unsubscribeUnload_def fireUnload_def rewindowed_def Let_def)
  moreover have "disposed ?Y" "unloaded ?Y = unloaded (windows s ! panelWindow p)"
    "onUnload ?Y = remove1 p (onUnload (windows s ! panelWindow p))"
    by simp_all
  ultimately show ?thesis by blast
qed


text \<open>No operation changes how the provider delivers.\<close>

lemma delivery_fold:
  "unloadDelivery (fold handlePanelClosed ps s) = unloadDelivery s"
  by (induction ps arbitrary: s) (simp_all add: handlePanelClosed_def)

lemma delivery_fireUnload [simp]: "unloadDelivery (fireUnload w s) = unloadDelivery s"
  by (simp add: fireUnload_def delivery_fold)

lemma delivery_close [simp]: "unloadDelivery (FloatingPanel_close p s) = unloadDelivery s"
  by (cases "unloadDelivery s")
    (simp_all add: FloatingPanel_close_def FloatingPanel_dispose_def windowDispose_def
      unsubscribeUnload_def Let_def)

lemma delivery_step: "unloadDelivery (fst (step a \<sigma>)) = unloadDelivery (fst \<sigma>)"
proof (cases \<sigma>)
  case (Pair s q)
  then show ?thesis
  proof (cases a)
    case (Begin options)
    with Pair show ?thesis
      by (simp add: openFloatingPanel_begin_def bringToFront_def split: option.splits)
  next
    case (Resume i answer)
    with Pair show ?thesis
      by (cases answer) (simp_all add: resume_Inl resume_Inr insertion_def)
  next
    case (Close pid)
    with Pair show ?thesis
      by (simp add: closeFloatingPanel_def split: option.splits)
  next
    case (Dock reg pid location)
    with Pair show ?thesis
      by (simp add: dockFloatingPanel_def Let_def split: option.splits)
  next
    case (Unload w)
    with Pair show ?thesis by simp
  next
    case (PanelClose i)
    with Pair show ?thesis by simp
  qed
qed

lemma delivery_run: "unloadDelivery (fst (run as \<sigma>)) = unloadDelivery (fst \<sigma>)"
  by (induction as arbitrary: \<sigma>) (simp_all add: delivery_step)

lemma delivery_after [simp]: "unloadDelivery (after d as) = d"
  by (simp add: after_def delivery_run initial_def)

subsection \<open>The invariants hold in every state of a run\<close>

lemma wellformed_initial: "wellformed (initial d)"
  by (simp add: wellformed_def keysDistinct_def idsInOrder_def windowsInOrder_def panelsWired_def
      indexSound_def windowsWired_def closedOnce_def windowsOwned_def initial_def)

lemma attached_effects [simp]: "attached (s\<lparr>effects := es\<rparr>) p = attached s p"
  by (simp add: attached_def)

lemma detached_effects [simp]: "detached (s\<lparr>effects := es\<rparr>) w = detached s w"
  by (simp add: detached_def)

lemma wellformed_effects:
  assumes "wellformed s" "opened es = []" "closed es = []"
  shows "wellformed (s\<lparr>effects := effects s @ es\<rparr>)"
proof -
  from assms have "keysDistinct (s\<lparr>effects := effects s @ es\<rparr>)"
    by (simp add: wellformed_def keysDistinct_def)
  moreover from assms have "idsInOrder (s\<lparr>effects := effects s @ es\<rparr>)"
    by (simp add: wellformed_def idsInOrder_def)
  moreover from assms have "windowsInOrder (s\<lparr>effects := effects s @ es\<rparr>)"
    by (simp add: wellformed_def windowsInOrder_def)
  moreover from assms have "panelsWired (s\<lparr>effects := effects s @ es\<rparr>)"
    by (simp add: wellformed_def panelsWired_def)
  moreover from assms have "indexSound (s\<lparr>effects := effects s @ es\<rparr>)"
    by (simp add: wellformed_def indexSound_def)
  moreover from assms have "windowsWired (s\<lparr>effects := effects s @ es\<rparr>)"
    by (simp add: wellformed_def windowsWired_def)
  moreover from assms have "closedOnce (s\<lparr>effects := effects s @ es\<rparr>)"
    by (simp add: wellformed_def closedOnce_def)
  moreover from assms have "windowsOwned (s\<lparr>effects := effects s @ es\<rparr>)"
    by (simp add: wellformed_def windowsOwned_def)
  ultimately show ?thesis
    by (simp add: wellformed_def)
qed

text \<open>A closure of a panel that \<open>floatingPanels\<close> holds.\<close>

lemma attached_closure:
  "panelWindow q \<noteq> panelWindow p \<Longrightarrow> attached (closure p es X s) q = attached s q"
  by (simp add: attached_def closure_def)

lemma detached_closure:
  "w \<noteq> panelWindow p \<Longrightarrow> detached (closure p es X s) w = detached s w"
  by (simp add: detached_def closure_def)

lemma closure_keysDistinct: "keysDistinct s \<Longrightarrow> keysDistinct (closure p es X s)"
  by (simp add: keysDistinct_def closure_def distinct_delete)

lemma closure_idsInOrder: "idsInOrder s \<Longrightarrow> opened es = [] \<Longrightarrow> idsInOrder (closure p es X s)"
  by (simp add: idsInOrder_def closure_def)

lemma closure_windowsInOrder:
  "windowsInOrder s \<Longrightarrow> opened es = [] \<Longrightarrow> windowsInOrder (closure p es X s)"
  by (simp add: windowsInOrder_def closure_def)

lemma closure_panelsWired:
  assumes "panelsWired s" "windowsInOrder s" "map_of (floatingPanels s) (panelId p) = Some p"
  shows "panelsWired (closure p es X s)"
  unfolding panelsWired_def
proof (intro allI impI)
  fix k q
  assume "map_of (floatingPanels (closure p es X s)) k = Some q"
  then have k: "k \<noteq> panelId p" and q: "map_of (floatingPanels s) k = Some q"
    by (auto simp add: closure_def delete_conv' split: if_splits)
  from assms(1) q have w: "panelId q = k" "q \<in> set (opened (effects s))"
    "attached s q \<or> detached s (panelWindow q)"
    by (auto simp add: panelsWired_def)
  from k w(1) have "q \<noteq> p" by auto
  with window_unique [OF assms(2) w(2) live_opened [OF assms(1,3)]]
  have ne: "panelWindow q \<noteq> panelWindow p" by auto
  from w(2) have "q \<in> set (opened (effects (closure p es X s)))"
    by (simp add: closure_def)
  with w(1,3) ne show "panelId q = k \<and> q \<in> set (opened (effects (closure p es X s))) \<and>
     (attached (closure p es X s) q \<or> detached (closure p es X s) (panelWindow q))"
    by (simp add: attached_closure detached_closure)
qed

lemma closure_indexSound:
  assumes "indexSound s" "map_of (floatingPanels s) (panelId p) = Some p"
  shows "indexSound (closure p es X s)"
  unfolding indexSound_def
proof (intro allI impI)
  fix v q
  assume "map_of (floatingPanelsByViewId (closure p es X s)) v = Some q"
  then have v: "v \<noteq> panelViewId p" and q: "map_of (floatingPanelsByViewId s) v = Some q"
    by (auto simp add: closure_def delete_conv' split: if_splits)
  from assms(1) q have w: "panelViewId q = v" "map_of (floatingPanels s) (panelId q) = Some q"
    by (auto simp add: indexSound_def)
  from v w(1) have "q \<noteq> p" by auto
  with w(2) assms(2) have "panelId q \<noteq> panelId p" by auto
  with w show "panelViewId q = v \<and> map_of (floatingPanels (closure p es X s)) (panelId q) = Some q"
    by (simp add: closure_def delete_conv')
qed

lemma closure_windowsWired:
  assumes "windowsWired s" "map_of (floatingPanels s) (panelId p) = Some p" "unloaded X"
  shows "windowsWired (closure p es X s)"
  unfolding windowsWired_def
proof (intro allI impI)
  fix w
  assume w: "w < length (windows (closure p es X s))"
    and u: "\<not> unloaded (windows (closure p es X s) ! w)"
  from w have wl: "w < length (windows s)" by (simp add: closure_def)
  from u wl assms(3) have ne: "w \<noteq> panelWindow p"
    by (auto simp add: closure_def)
  with u have u': "\<not> unloaded (windows s ! w)" by (simp add: closure_def)
  with assms(1) wl have "(\<exists>q. attached s q \<and> panelWindow q = w \<and>
       map_of (floatingPanels s) (panelId q) = Some q) \<or> detached s w"
    by (simp add: windowsWired_def)
  then show "(\<exists>q. attached (closure p es X s) q \<and> panelWindow q = w \<and>
        map_of (floatingPanels (closure p es X s)) (panelId q) = Some q) \<or>
     detached (closure p es X s) w"
  proof
    assume "\<exists>q. attached s q \<and> panelWindow q = w \<and> map_of (floatingPanels s) (panelId q) = Some q"
    then obtain q where q: "attached s q" "panelWindow q = w"
      "map_of (floatingPanels s) (panelId q) = Some q"
      by blast
    from q(2) ne have "q \<noteq> p" by auto
    with q(3) assms(2) have "panelId q \<noteq> panelId p" by auto
    with q ne have "attached (closure p es X s) q \<and> panelWindow q = w \<and>
        map_of (floatingPanels (closure p es X s)) (panelId q) = Some q"
      by (simp add: attached_closure) (simp add: closure_def delete_conv')
    then show ?thesis by blast
  next
    assume "detached s w"
    with ne show ?thesis by (simp add: detached_closure)
  qed
qed

lemma closure_closedOnce:
  assumes "closedOnce s" "panelsWired s" "map_of (floatingPanels s) (panelId p) = Some p"
    "opened es = []" "closed es = []"
  shows "closedOnce (closure p es X s)"
  unfolding closedOnce_def
proof
  fix q
  from assms(2,3) have po: "p \<in> set (opened (effects s))"
    by (auto simp add: panelsWired_def)
  from assms(1) have c: "count_list (closed (effects s)) q =
     (if q \<in> set (opened (effects s)) \<and> map_of (floatingPanels s) (panelId q) \<noteq> Some q then 1 else 0)"
    by (simp add: closedOnce_def)
  show "count_list (closed (effects (closure p es X s))) q =
     (if q \<in> set (opened (effects (closure p es X s))) \<and>
         map_of (floatingPanels (closure p es X s)) (panelId q) \<noteq> Some q then 1 else 0)"
  proof (cases "q = p")
    case True
    with c po assms(3,4,5) show ?thesis
      by (simp add: closure_def delete_conv')
  next
    case False
    show ?thesis
    proof (cases "panelId q = panelId p")
      case True
      with False assms(3) have "map_of (floatingPanels s) (panelId q) \<noteq> Some q" by auto
      with c False True assms(4,5) show ?thesis
        by (simp add: closure_def delete_conv')
    next
      case ne: False
      with c False assms(4,5) show ?thesis
        by (simp add: closure_def delete_conv')
    qed
  qed
qed

lemma closure_windowsOwned:
  assumes "windowsOwned s" "windowsInOrder s" "map_of (floatingPanels s) (panelId p) = Some p"
    "unloaded X" "opened es = []"
  shows "windowsOwned (closure p es X s)"
  unfolding windowsOwned_def
proof (intro ballI impI)
  fix q
  assume "q \<in> set (opened (effects (closure p es X s)))"
  with assms(5) have q: "q \<in> set (opened (effects s))" by (simp add: closure_def)
  from opened_window [OF assms(2) q] have wl: "panelWindow q < length (windows s)" .
  assume n: "map_of (floatingPanels (closure p es X s)) (panelId q) \<noteq> Some q"
  show "unloaded (windows (closure p es X s) ! panelWindow q)"
  proof (cases "panelWindow q = panelWindow p")
    case True
    with wl assms(4) show ?thesis by (simp add: closure_def)
  next
    case False
    then have "q \<noteq> p" by auto
    with assms(3) n have "map_of (floatingPanels s) (panelId q) \<noteq> Some q"
      by (auto simp add: closure_def delete_conv' split: if_splits)
    with assms(1) q have "unloaded (windows s ! panelWindow q)"
      by (auto simp add: windowsOwned_def)
    with False show ?thesis by (simp add: closure_def)
  qed
qed

lemma wellformed_closure:
  assumes "wellformed s" "map_of (floatingPanels s) (panelId p) = Some p" "unloaded X"
    "opened es = []" "closed es = []"
  shows "wellformed (closure p es X s)"
  using assms
  by (simp add: wellformed_def closure_keysDistinct closure_idsInOrder closure_windowsInOrder
      closure_panelsWired closure_indexSound closure_windowsWired closure_closedOnce
      closure_windowsOwned)

text \<open>A change to one window that lets no panel of \<open>floatingPanels\<close> lose its wiring.\<close>

lemma attached_rewindowed:
  "panelWindow q \<noteq> w \<Longrightarrow> attached (rewindowed w Y es s) q = attached s q"
  by (simp add: attached_def rewindowed_def)

lemma detached_rewindowed:
  "w' \<noteq> w \<Longrightarrow> detached (rewindowed w Y es s) w' = detached s w'"
  by (simp add: detached_def rewindowed_def)

lemma detached_rewindowed_same:
  "w < length (windows s) \<Longrightarrow>
     detached (rewindowed w Y es s) w \<longleftrightarrow>
       unloadDelivery s = Asynchronous \<and> disposed Y \<and> onUnload Y = []"
  by (simp add: detached_def rewindowed_def)

lemma wellformed_rewindowed:
  assumes wf: "wellformed s" and wl: "w < length (windows s)"
    and es: "opened es = []" "closed es = []"
    and h1: "unloaded (windows s ! w) \<longrightarrow> unloaded Y"
    and h2: "unloaded Y \<or> (unloadDelivery s = Asynchronous \<and> disposed Y \<and> onUnload Y = [])"
    and h3: "\<forall>p. map_of (floatingPanels s) (panelId p) = Some p \<and> panelWindow p = w \<longrightarrow>
               unloadDelivery s = Asynchronous \<and> disposed Y \<and> onUnload Y = []"
  shows "wellformed (rewindowed w Y es s)"
proof -
  let ?t = "rewindowed w Y es s"
  from wf have inv: "keysDistinct s" "idsInOrder s" "windowsInOrder s" "panelsWired s"
    "indexSound s" "windowsWired s" "closedOnce s" "windowsOwned s"
    by (simp_all add: wellformed_def)
  have m: "floatingPanels ?t = floatingPanels s" "floatingPanelsByViewId ?t = floatingPanelsByViewId s"
    "opened (effects ?t) = opened (effects s)" "closed (effects ?t) = closed (effects s)"
    "length (windows ?t) = length (windows s)" "idCounter ?t = idCounter s"
    using es by (simp_all add: rewindowed_def)
  from inv(1) have "keysDistinct ?t" by (simp add: keysDistinct_def m)
  moreover from inv(2) have "idsInOrder ?t" by (simp add: idsInOrder_def m)
  moreover from inv(3) have "windowsInOrder ?t" by (simp add: windowsInOrder_def m)
  moreover have "panelsWired ?t"
    unfolding panelsWired_def
  proof (intro allI impI)
    fix k q
    assume "map_of (floatingPanels ?t) k = Some q"
    then have l: "map_of (floatingPanels s) k = Some q" by (simp add: m)
    with inv(4) have q: "panelId q = k" "q \<in> set (opened (effects s))"
      "attached s q \<or> detached s (panelWindow q)"
      by (auto simp add: panelsWired_def)
    have "attached ?t q \<or> detached ?t (panelWindow q)"
    proof (cases "panelWindow q = w")
      case True
      with l q(1) h3 have "unloadDelivery s = Asynchronous \<and> disposed Y \<and> onUnload Y = []"
        by blast
      with True wl show ?thesis by (simp add: detached_rewindowed_same)
    next
      case False
      with q(3) show ?thesis by (simp add: attached_rewindowed detached_rewindowed)
    qed
    with q(1,2) show "panelId q = k \<and> q \<in> set (opened (effects ?t)) \<and>
       (attached ?t q \<or> detached ?t (panelWindow q))"
      by (simp add: m)
  qed
  moreover from inv(5) have "indexSound ?t" by (simp add: indexSound_def m)
  moreover have "windowsWired ?t"
    unfolding windowsWired_def
  proof (intro allI impI)
    fix w'
    assume l: "w' < length (windows ?t)" and u: "\<not> unloaded (windows ?t ! w')"
    show "(\<exists>p. attached ?t p \<and> panelWindow p = w' \<and>
          map_of (floatingPanels ?t) (panelId p) = Some p) \<or> detached ?t w'"
    proof (cases "w' = w")
      case True
      with u wl have "\<not> unloaded Y" by (simp add: rewindowed_def)
      with h2 True wl show ?thesis by (simp add: detached_rewindowed_same)
    next
      case False
      with l u have "w' < length (windows s)" "\<not> unloaded (windows s ! w')"
        by (simp_all add: rewindowed_def)
      with inv(6) have "(\<exists>p. attached s p \<and> panelWindow p = w' \<and>
          map_of (floatingPanels s) (panelId p) = Some p) \<or> detached s w'"
        by (simp add: windowsWired_def)
      then show ?thesis
      proof
        assume "\<exists>p. attached s p \<and> panelWindow p = w' \<and>
          map_of (floatingPanels s) (panelId p) = Some p"
        then obtain p where p: "attached s p" "panelWindow p = w'"
          "map_of (floatingPanels s) (panelId p) = Some p"
          by blast
        with False have "attached ?t p \<and> panelWindow p = w' \<and>
          map_of (floatingPanels ?t) (panelId p) = Some p"
          by (simp add: attached_rewindowed m)
        then show ?thesis by blast
      next
        assume "detached s w'"
        with False show ?thesis by (simp add: detached_rewindowed)
      qed
    qed
  qed
  moreover from inv(7) have "closedOnce ?t" by (simp add: closedOnce_def m)
  moreover have "windowsOwned ?t"
    unfolding windowsOwned_def
  proof (intro ballI impI)
    fix q
    assume "q \<in> set (opened (effects ?t))"
      and "map_of (floatingPanels ?t) (panelId q) \<noteq> Some q"
    with inv(8) have "unloaded (windows s ! panelWindow q)"
      by (auto simp add: windowsOwned_def m)
    with h1 wl show "unloaded (windows ?t ! panelWindow q)"
      by (cases "panelWindow q = w") (simp_all add: rewindowed_def)
  qed
  ultimately show ?thesis by (simp add: wellformed_def)
qed

text \<open>The insertion a resumed call makes.\<close>

lemma fresh_id:
  assumes "idsInOrder s" "p \<in> set (opened (effects s))"
  shows "panelId p \<noteq> make_id (idCounter s)"
proof -
  from assms(2) have "panelId p \<in> set (map panelId (opened (effects s)))" by simp
  with assms(1) have "panelId p \<in> set (map make_id [0..<idCounter s])"
    by (simp only: idsInOrder_def)
  then show ?thesis by auto
qed

lemma live_not_fresh:
  assumes "idsInOrder s" "panelsWired s" "map_of (floatingPanels s) k = Some p"
  shows "k \<noteq> make_id (idCounter s)"
  using assms fresh_id [of s p] by (auto simp add: panelsWired_def)

lemma attached_insertion:
  "panelWindow q < length (windows s) \<Longrightarrow> attached (insertion v c s) q = attached s q"
  by (simp add: attached_def insertion_def nth_append)

lemma detached_insertion:
  "w < length (windows s) \<Longrightarrow> detached (insertion v c s) w = detached s w"
  by (simp add: detached_def insertion_def nth_append)

lemma attached_newPanel: "attached (insertion v c s) (newPanel v c s)"
  by (simp add: attached_def insertion_def)

lemma insertion_keysDistinct: "keysDistinct s \<Longrightarrow> keysDistinct (insertion v c s)"
  by (simp add: keysDistinct_def insertion_def distinct_update)

lemma insertion_idsInOrder: "idsInOrder s \<Longrightarrow> idsInOrder (insertion v c s)"
  by (simp add: idsInOrder_def insertion_def)

lemma insertion_windowsInOrder: "windowsInOrder s \<Longrightarrow> windowsInOrder (insertion v c s)"
  by (simp add: windowsInOrder_def insertion_def)

lemma insertion_panelsWired:
  assumes "panelsWired s" "windowsInOrder s"
  shows "panelsWired (insertion v c s)"
  unfolding panelsWired_def
proof (intro allI impI)
  fix k q
  assume a: "map_of (floatingPanels (insertion v c s)) k = Some q"
  show "panelId q = k \<and> q \<in> set (opened (effects (insertion v c s))) \<and>
     (attached (insertion v c s) q \<or> detached (insertion v c s) (panelWindow q))"
  proof (cases "k = make_id (idCounter s)")
    case True
    with a have "q = newPanel v c s"
      by (simp add: insertion_def update_conv')
    with True attached_newPanel [of v c s] show ?thesis
      by (simp add: insertion_def)
  next
    case False
    with a have q: "map_of (floatingPanels s) k = Some q"
      by (simp add: insertion_def update_conv')
    with assms(1) have w: "panelId q = k" "q \<in> set (opened (effects s))"
      "attached s q \<or> detached s (panelWindow q)"
      by (auto simp add: panelsWired_def)
    from opened_window [OF assms(2) w(2)] w show ?thesis
      by (simp add: attached_insertion detached_insertion) (simp add: insertion_def)
  qed
qed

lemma insertion_indexSound:
  assumes "indexSound s" "panelsWired s" "idsInOrder s"
  shows "indexSound (insertion v c s)"
  unfolding indexSound_def
proof (intro allI impI)
  fix v' q
  assume a: "map_of (floatingPanelsByViewId (insertion v c s)) v' = Some q"
  show "panelViewId q = v' \<and> map_of (floatingPanels (insertion v c s)) (panelId q) = Some q"
  proof (cases "v' = v")
    case True
    with a have "q = newPanel v c s"
      by (simp add: insertion_def update_conv')
    with True show ?thesis
      by (simp add: insertion_def update_conv')
  next
    case False
    with a have "map_of (floatingPanelsByViewId s) v' = Some q"
      by (simp add: insertion_def update_conv')
    with assms(1) have q: "panelViewId q = v'" "map_of (floatingPanels s) (panelId q) = Some q"
      by (auto simp add: indexSound_def)
    from live_not_fresh [OF assms(3,2) q(2)] q show ?thesis
      by (simp add: insertion_def update_conv')
  qed
qed

lemma insertion_windowsWired:
  assumes "windowsWired s" "panelsWired s" "idsInOrder s"
  shows "windowsWired (insertion v c s)"
  unfolding windowsWired_def
proof (intro allI impI)
  fix w
  assume w: "w < length (windows (insertion v c s))"
    and u: "\<not> unloaded (windows (insertion v c s) ! w)"
  show "(\<exists>p. attached (insertion v c s) p \<and> panelWindow p = w \<and>
        map_of (floatingPanels (insertion v c s)) (panelId p) = Some p) \<or>
     detached (insertion v c s) w"
  proof (cases "w = length (windows s)")
    case True
    have "attached (insertion v c s) (newPanel v c s) \<and> panelWindow (newPanel v c s) = w \<and>
        map_of (floatingPanels (insertion v c s)) (panelId (newPanel v c s)) = Some (newPanel v c s)"
      using True attached_newPanel [of v c s] by (simp add: insertion_def update_conv')
    then show ?thesis by blast
  next
    case False
    with w have wl: "w < length (windows s)" by (simp add: insertion_def)
    with u have "\<not> unloaded (windows s ! w)" by (simp add: insertion_def nth_append)
    with assms(1) wl have "(\<exists>p. attached s p \<and> panelWindow p = w \<and>
        map_of (floatingPanels s) (panelId p) = Some p) \<or> detached s w"
      by (simp add: windowsWired_def)
    then show ?thesis
    proof
      assume "\<exists>p. attached s p \<and> panelWindow p = w \<and> map_of (floatingPanels s) (panelId p) = Some p"
      then obtain q where q: "attached s q" "panelWindow q = w"
        "map_of (floatingPanels s) (panelId q) = Some q"
        by blast
      from live_not_fresh [OF assms(3,2) q(3)] q wl
      have "attached (insertion v c s) q \<and> panelWindow q = w \<and>
        map_of (floatingPanels (insertion v c s)) (panelId q) = Some q"
        by (simp add: attached_insertion) (simp add: insertion_def update_conv')
      then show ?thesis by blast
    next
      assume "detached s w"
      with wl show ?thesis by (simp add: detached_insertion)
    qed
  qed
qed

lemma insertion_closedOnce:
  assumes "closedOnce s" "idsInOrder s"
  shows "closedOnce (insertion v c s)"
  unfolding closedOnce_def
proof
  fix q
  from assms(1) have c: "count_list (closed (effects s)) q =
     (if q \<in> set (opened (effects s)) \<and> map_of (floatingPanels s) (panelId q) \<noteq> Some q then 1 else 0)"
    by (simp add: closedOnce_def)
  show "count_list (closed (effects (insertion v c s))) q =
     (if q \<in> set (opened (effects (insertion v c s))) \<and>
         map_of (floatingPanels (insertion v c s)) (panelId q) \<noteq> Some q then 1 else 0)"
  proof (cases "panelId q = make_id (idCounter s)")
    case True
    with fresh_id [OF assms(2), of q] have "q \<notin> set (opened (effects s))" by auto
    with c True show ?thesis
      by (auto simp add: insertion_def update_conv')
  next
    case False
    then have "q \<noteq> newPanel v c s" by auto
    with c False show ?thesis
      by (simp add: insertion_def update_conv')
  qed
qed

lemma insertion_windowsOwned:
  assumes "windowsOwned s" "idsInOrder s" "windowsInOrder s"
  shows "windowsOwned (insertion v c s)"
  unfolding windowsOwned_def
proof (intro ballI)
  fix q
  assume "q \<in> set (opened (effects (insertion v c s)))"
  then have "q = newPanel v c s \<or> q \<in> set (opened (effects s))"
    by (auto simp add: insertion_def)
  then show "map_of (floatingPanels (insertion v c s)) (panelId q) \<noteq> Some q \<longrightarrow>
        unloaded (windows (insertion v c s) ! panelWindow q)"
  proof
    assume "q = newPanel v c s"
    then show ?thesis by (simp add: insertion_def update_conv')
  next
    assume q: "q \<in> set (opened (effects s))"
    with assms(1) have o: "map_of (floatingPanels s) (panelId q) \<noteq> Some q \<longrightarrow>
        unloaded (windows s ! panelWindow q)"
      by (auto simp add: windowsOwned_def)
    from fresh_id [OF assms(2) q] o opened_window [OF assms(3) q] show ?thesis
      by (simp add: insertion_def update_conv' nth_append)
  qed
qed

lemma wellformed_insertion: "wellformed s \<Longrightarrow> wellformed (insertion v c s)"
  by (simp add: wellformed_def insertion_keysDistinct insertion_idsInOrder insertion_windowsInOrder
      insertion_panelsWired insertion_indexSound insertion_windowsWired insertion_closedOnce
      insertion_windowsOwned)

text \<open>Every step of a run.\<close>

lemma wellformed_resume: "wellformed s \<Longrightarrow> wellformed (snd (openFloatingPanel_resume v answer s))"
proof (cases answer)
  case (Inl e)
  assume "wellformed s"
  with Inl show ?thesis by (simp add: resume_Inl)
next
  case (Inr c)
  assume "wellformed s"
  with Inr show ?thesis by (simp add: resume_Inr wellformed_insertion)
qed

lemma wellformed_begin: "wellformed s \<Longrightarrow> wellformed (snd (openFloatingPanel_begin options s))"
  by (auto simp add: openFloatingPanel_begin_def bringToFront_def wellformed_effects
      split: option.splits)

lemma wellformed_fireUnload:
  assumes "wellformed s"
  shows "wellformed (fireUnload w s)"
proof -
  from assms have "windowsWired s" by (simp add: wellformed_def)
  from fireUnload_cases [OF this, of w] show ?thesis
  proof (elim disjE)
    assume "fireUnload w s = s"
    with assms show ?thesis by simp
  next
    assume "\<exists>p. map_of (floatingPanels s) (panelId p) = Some p \<and> panelWindow p = w \<and>
        fireUnload w s = closure p [] ((windows s ! w)\<lparr>unloaded := True\<rparr>) s"
    then obtain p where p: "map_of (floatingPanels s) (panelId p) = Some p"
      and e: "fireUnload w s = closure p [] ((windows s ! w)\<lparr>unloaded := True\<rparr>) s"
      by blast
    from wellformed_closure [OF assms p, of "(windows s ! w)\<lparr>unloaded := True\<rparr>" "[]"] e
    show ?thesis by simp
  next
    assume a: "w < length (windows s) \<and> detached s w \<and>
        fireUnload w s = rewindowed w ((windows s ! w)\<lparr>unloaded := True\<rparr>) [] s"
    then have d: "unloadDelivery s = Asynchronous" "disposed (windows s ! w)"
      "onUnload (windows s ! w) = []"
      by (simp_all add: detached_def)
    have "wellformed (rewindowed w ((windows s ! w)\<lparr>unloaded := True\<rparr>) [] s)"
      using assms a d by (intro wellformed_rewindowed) simp_all
    with a show ?thesis by simp
  qed
qed

lemma live_wired:
  "panelsWired s \<Longrightarrow> map_of (floatingPanels s) k = Some p \<Longrightarrow>
     attached s p \<or> detached s (panelWindow p)"
  by (simp add: panelsWired_def)

lemma attached_live:
  assumes "wellformed s" "unloadDelivery s = Synchronous" "attached s p"
    "p \<in> set (opened (effects s))"
  shows "map_of (floatingPanels s) (panelId p) = Some p"
proof -
  from assms(1) have inv: "windowsInOrder s" "panelsWired s" "windowsWired s"
    by (simp_all add: wellformed_def)
  from opened_window [OF inv(1) assms(4)] assms(3) inv(3)
  have "(\<exists>q. attached s q \<and> panelWindow q = panelWindow p \<and>
      map_of (floatingPanels s) (panelId q) = Some q) \<or> detached s (panelWindow p)"
    by (simp add: windowsWired_def attached_def)
  with assms(2) obtain q where q: "panelWindow q = panelWindow p"
    "map_of (floatingPanels s) (panelId q) = Some q"
    by (auto simp add: detached_def)
  from window_unique [OF inv(1) live_opened [OF inv(2) q(2)] assms(4) q(1)] q(2)
  show ?thesis by simp
qed

lemma close_opened_cases:
  assumes "wellformed s" "p \<in> set (opened (effects s))"
  shows "(unloadDelivery s = Synchronous \<and> map_of (floatingPanels s) (panelId p) = Some p \<and>
          FloatingPanel_close p s =
            closure p [WindowDispose (panelWindow p)]
              ((windows s ! panelWindow p)\<lparr>unloaded := True, disposed := True, onUnload := []\<rparr>) s) \<or>
         ((unloadDelivery s = Asynchronous \<or> map_of (floatingPanels s) (panelId p) \<noteq> Some p) \<and>
          (\<exists>Y. wellformed (rewindowed (panelWindow p) Y [WindowDispose (panelWindow p)] s) \<and>
             FloatingPanel_close p s = rewindowed (panelWindow p) Y [WindowDispose (panelWindow p)] s))"
proof -
  let ?w = "panelWindow p"
  let ?W = "windows s ! ?w"
  from assms(1) have inv: "windowsInOrder s" "panelsWired s" "windowsWired s" "windowsOwned s"
    by (simp_all add: wellformed_def)
  note wl = opened_window [OF inv(1) assms(2)]
  show ?thesis
  proof (cases "unloadDelivery s = Synchronous \<and> attached s p")
    case True
    then have "map_of (floatingPanels s) (panelId p) = Some p"
      using attached_live [OF assms(1) _ _ assms(2)] by simp
    with True close_closure [OF _ _ wl] show ?thesis by simp
  next
    case False
    have only: "\<And>q. map_of (floatingPanels s) (panelId q) = Some q \<Longrightarrow> panelWindow q = ?w \<Longrightarrow> q = p"
      using window_unique [OF inv(1) live_opened [OF inv(2)] assms(2)] by blast
    have wired: "\<not> unloaded ?W \<Longrightarrow> attached s p \<or> detached s ?w"
    proof -
      assume "\<not> unloaded ?W"
      with inv(3) wl have "(\<exists>q. attached s q \<and> panelWindow q = ?w \<and>
          map_of (floatingPanels s) (panelId q) = Some q) \<or> detached s ?w"
        by (simp add: windowsWired_def)
      with only show ?thesis by blast
    qed
    have mode: "unloadDelivery s = Asynchronous \<or> unloaded ?W \<or> disposed ?W"
      using wired False by (cases "unloadDelivery s") (auto simp add: detached_def)
    have notlive: "unloadDelivery s = Asynchronous \<or> map_of (floatingPanels s) (panelId p) \<noteq> Some p"
      using False live_attached [OF inv(2), of "panelId p" p] by (cases "unloadDelivery s") auto
    from close_rewindowed [OF wl mode] obtain Y where Y: "disposed Y" "unloaded Y = unloaded ?W"
      "onUnload Y = remove1 p (onUnload ?W)"
      "FloatingPanel_close p s = rewindowed ?w Y [WindowDispose ?w] s"
      by blast
    have key: "attached s p \<or> detached s ?w \<Longrightarrow>
        unloadDelivery s = Asynchronous \<and> disposed Y \<and> onUnload Y = []"
      using False Y(1,3) by (cases "unloadDelivery s") (auto simp add: attached_def detached_def)
    have h2: "unloaded Y \<or> (unloadDelivery s = Asynchronous \<and> disposed Y \<and> onUnload Y = [])"
      using wired key Y(2) by blast
    have h3: "\<forall>q. map_of (floatingPanels s) (panelId q) = Some q \<and> panelWindow q = ?w \<longrightarrow>
        unloadDelivery s = Asynchronous \<and> disposed Y \<and> onUnload Y = []"
    proof (intro allI impI)
      fix q
      assume q: "map_of (floatingPanels s) (panelId q) = Some q \<and> panelWindow q = ?w"
      then have l: "map_of (floatingPanels s) (panelId q) = Some q" and w: "panelWindow q = ?w"
        by blast+
      from only [OF l w] have qp: "q = p" .
      from live_wired [OF inv(2) l] have "attached s q \<or> detached s (panelWindow q)" .
      then have "attached s p \<or> detached s ?w" unfolding qp .
      with key show "unloadDelivery s = Asynchronous \<and> disposed Y \<and> onUnload Y = []" .
    qed
    have "wellformed (rewindowed ?w Y [WindowDispose ?w] s)"
      using assms(1) wl Y(2) h2 h3 by (intro wellformed_rewindowed) simp_all
    with notlive Y(4) show ?thesis by blast
  qed
qed

lemma wellformed_close_opened:
  assumes "wellformed s" "p \<in> set (opened (effects s))"
  shows "wellformed (FloatingPanel_close p s)"
  using close_opened_cases [OF assms]
proof
  assume a: "unloadDelivery s = Synchronous \<and> map_of (floatingPanels s) (panelId p) = Some p \<and>
          FloatingPanel_close p s =
            closure p [WindowDispose (panelWindow p)]
              ((windows s ! panelWindow p)\<lparr>unloaded := True, disposed := True, onUnload := []\<rparr>) s"
  then have "map_of (floatingPanels s) (panelId p) = Some p" by simp
  from wellformed_closure [OF assms(1) this, of
      "(windows s ! panelWindow p)\<lparr>unloaded := True, disposed := True, onUnload := []\<rparr>"
      "[WindowDispose (panelWindow p)]"] a
  show ?thesis by simp
next
  assume "(unloadDelivery s = Asynchronous \<or> map_of (floatingPanels s) (panelId p) \<noteq> Some p) \<and>
          (\<exists>Y. wellformed (rewindowed (panelWindow p) Y [WindowDispose (panelWindow p)] s) \<and>
             FloatingPanel_close p s = rewindowed (panelWindow p) Y [WindowDispose (panelWindow p)] s)"
  then show ?thesis by auto
qed

lemma wellformed_close_live:
  assumes "wellformed s" "map_of (floatingPanels s) k = Some p" "opened es = []" "closed es = []"
  shows "wellformed (FloatingPanel_close p (s\<lparr>effects := effects s @ es\<rparr>))"
proof -
  let ?s = "s\<lparr>effects := effects s @ es\<rparr>"
  from assms have wf: "wellformed ?s" by (simp add: wellformed_effects)
  from assms(2) have m: "map_of (floatingPanels ?s) k = Some p" by simp
  from wf have pw: "panelsWired ?s" by (simp add: wellformed_def)
  from wellformed_close_opened [OF wf live_opened [OF pw m]] show ?thesis .
qed

lemma wellformed_closeFloatingPanel: "wellformed s \<Longrightarrow> wellformed (closeFloatingPanel pid s)"
  using wellformed_close_live [of s pid _ "[]"]
  by (auto simp add: closeFloatingPanel_def split: option.splits)

lemma wellformed_dockFloatingPanel:
  "wellformed s \<Longrightarrow> wellformed (dockFloatingPanel reg pid location s)"
  using wellformed_close_live [of s pid _ "[]"]
    wellformed_close_live [of s pid _ "[MoveViewToLocation d location ''dock'']" for d]
  by (auto simp add: dockFloatingPanel_def Let_def split: option.splits)

lemma wellformed_step: "wellformed (fst \<sigma>) \<Longrightarrow> wellformed (fst (step a \<sigma>))"
proof (cases \<sigma>)
  case (Pair s q)
  assume "wellformed (fst \<sigma>)"
  with Pair have wf: "wellformed s" by simp
  show ?thesis
  proof (cases a)
    case (Begin options)
    with wellformed_begin [OF wf, of options] Pair show ?thesis
      by (auto split: prod.splits progress.splits)
  next
    case (Resume i answer)
    with wellformed_resume [OF wf] wf Pair show ?thesis by simp
  next
    case (Close pid)
    with wellformed_closeFloatingPanel [OF wf] Pair show ?thesis by simp
  next
    case (Dock reg pid location)
    with wellformed_dockFloatingPanel [OF wf] Pair show ?thesis by simp
  next
    case (Unload w)
    with wellformed_fireUnload [OF wf] Pair show ?thesis by simp
  next
    case (PanelClose i)
    with wellformed_close_opened [OF wf] wf Pair show ?thesis by simp
  qed
qed

lemma wellformed_run: "wellformed (fst \<sigma>) \<Longrightarrow> wellformed (fst (run as \<sigma>))"
  by (induction as arbitrary: \<sigma>) (simp_all add: wellformed_step)

lemma wellformed_after: "wellformed (after d as)"
  by (simp add: after_def wellformed_run wellformed_initial)

lemma wellformed_exec:
  assumes "wellformed s"
  shows "wellformed (exec op s)"
proof (cases op)
  case (OpenFloatingPanel options answer)
  have "wellformed (snd (openFloatingPanel options answer s))"
    using assms
    by (simp add: openFloatingPanel_state wellformed_effects wellformed_insertion
        split: option.splits sum.splits)
  with OpenFloatingPanel show ?thesis by simp
next
  case (CloseFloatingPanel pid)
  with wellformed_closeFloatingPanel [OF assms] show ?thesis by simp
next
  case (DockFloatingPanel reg pid location)
  with wellformed_dockFloatingPanel [OF assms] show ?thesis by simp
next
  case (WindowUnload w)
  with wellformed_fireUnload [OF assms] show ?thesis by simp
qed

subsection \<open>Panels that are gone, and the two maps\<close>





lemma dock_close:
  "map_of (floatingPanels s) k = Some p \<Longrightarrow>
     dockFloatingPanel reg k location s =
       FloatingPanel_close p (s\<lparr>effects := effects s @ relocation reg (panelViewId p) location\<rparr>)"
  by (auto simp add: dockFloatingPanel_def relocation_def Let_def split: option.splits)




lemma consistent_iff:
  assumes "wellformed s"
  shows "consistent s \<longleftrightarrow> indexComplete s"
proof
  assume "consistent s"
  then show "indexComplete s"
    by (simp add: consistent_def indexComplete_def getFloatingPanel_def getFloatingPanelByViewId_def)
next
  assume ic: "indexComplete s"
  from assms have pw: "panelsWired s" and ix: "indexSound s"
    by (simp_all add: wellformed_def)
  have 1: "\<forall>v p. getFloatingPanelByViewId v s = Some p \<longrightarrow>
        panelViewId p = v \<and> getFloatingPanel (panelId p) s = Some p"
    using ix by (simp add: indexSound_def getFloatingPanel_def getFloatingPanelByViewId_def)
  have 2: "\<forall>k p. getFloatingPanel k s = Some p \<longrightarrow>
        panelId p = k \<and> getFloatingPanelByViewId (panelViewId p) s = Some p"
    using pw ic
    by (simp add: panelsWired_def indexComplete_def getFloatingPanel_def getFloatingPanelByViewId_def)
  have 3: "\<forall>k k' p p'. getFloatingPanel k s = Some p \<and> getFloatingPanel k' s = Some p' \<and>
        panelViewId p = panelViewId p' \<longrightarrow> k = k'"
  proof (intro allI impI)
    fix k k' p p'
    assume a: "getFloatingPanel k s = Some p \<and> getFloatingPanel k' s = Some p' \<and>
        panelViewId p = panelViewId p'"
    from a 2 have p: "panelId p = k" "getFloatingPanelByViewId (panelViewId p) s = Some p"
      by blast+
    from a 2 have p': "panelId p' = k'" "getFloatingPanelByViewId (panelViewId p') s = Some p'"
      by blast+
    from a p(2) p'(2) have "p = p'" by (metis option.inject)
    with p(1) p'(1) show "k = k'" by simp
  qed
  have 4: "\<forall>v v' p p'. getFloatingPanelByViewId v s = Some p \<and>
        getFloatingPanelByViewId v' s = Some p' \<and> panelViewId p = panelViewId p' \<longrightarrow> v = v'"
    using 1 by metis
  from 1 2 3 4 show "consistent s"
    unfolding consistent_def by blast
qed

lemma indexComplete_effects [simp]: "indexComplete (s\<lparr>effects := es\<rparr>) = indexComplete s"
  by (simp add: indexComplete_def)

lemma indexComplete_rewindowed [simp]: "indexComplete (rewindowed w Y es s) = indexComplete s"
  by (simp add: indexComplete_def rewindowed_def)

lemma closure_indexComplete:
  assumes "indexComplete s" "panelsWired s" "map_of (floatingPanels s) (panelId p) = Some p"
  shows "indexComplete (closure p es X s)"
  unfolding indexComplete_def
proof (intro allI impI)
  fix k q
  assume "map_of (floatingPanels (closure p es X s)) k = Some q"
  then have k: "k \<noteq> panelId p" and q: "map_of (floatingPanels s) k = Some q"
    by (auto simp add: closure_def delete_conv' split: if_splits)
  from q assms(2) have kq: "panelId q = k" by (auto simp add: panelsWired_def)
  from q assms(1) have v: "map_of (floatingPanelsByViewId s) (panelViewId q) = Some q"
    by (auto simp add: indexComplete_def)
  from assms(1,3) have vp: "map_of (floatingPanelsByViewId s) (panelViewId p) = Some p"
    by (auto simp add: indexComplete_def)
  from k kq v vp have "panelViewId q \<noteq> panelViewId p" by (metis option.inject)
  with v show "map_of (floatingPanelsByViewId (closure p es X s)) (panelViewId q) = Some q"
    by (simp add: closure_def delete_conv')
qed

lemma insertion_indexComplete:
  assumes "indexComplete s" "map_of (floatingPanelsByViewId s) v = None"
  shows "indexComplete (insertion v c s)"
  unfolding indexComplete_def
proof (intro allI impI)
  fix k q
  assume a: "map_of (floatingPanels (insertion v c s)) k = Some q"
  show "map_of (floatingPanelsByViewId (insertion v c s)) (panelViewId q) = Some q"
  proof (cases "k = make_id (idCounter s)")
    case True
    with a have "q = newPanel v c s" by (simp add: insertion_def update_conv')
    then show ?thesis by (simp add: insertion_def update_conv')
  next
    case False
    with a have "map_of (floatingPanels s) k = Some q" by (simp add: insertion_def update_conv')
    with assms(1) have q: "map_of (floatingPanelsByViewId s) (panelViewId q) = Some q"
      by (auto simp add: indexComplete_def)
    with assms(2) have "panelViewId q \<noteq> v" by auto
    with q show ?thesis by (simp add: insertion_def update_conv')
  qed
qed

lemma indexComplete_close:
  assumes "wellformed s" "indexComplete s" "p \<in> set (opened (effects s))"
  shows "indexComplete (FloatingPanel_close p s)"
  using close_opened_cases [OF assms(1,3)]
proof
  assume a: "unloadDelivery s = Synchronous \<and> map_of (floatingPanels s) (panelId p) = Some p \<and>
          FloatingPanel_close p s =
            closure p [WindowDispose (panelWindow p)]
              ((windows s ! panelWindow p)\<lparr>unloaded := True, disposed := True, onUnload := []\<rparr>) s"
  from assms(1) have pw: "panelsWired s" by (simp add: wellformed_def)
  from a have l: "map_of (floatingPanels s) (panelId p) = Some p" by simp
  from closure_indexComplete [OF assms(2) pw l] a show ?thesis by simp
next
  assume "(unloadDelivery s = Asynchronous \<or> map_of (floatingPanels s) (panelId p) \<noteq> Some p) \<and>
          (\<exists>Y. wellformed (rewindowed (panelWindow p) Y [WindowDispose (panelWindow p)] s) \<and>
             FloatingPanel_close p s = rewindowed (panelWindow p) Y [WindowDispose (panelWindow p)] s)"
  with assms(2) show ?thesis by auto
qed

lemma indexComplete_exec:
  assumes "wellformed s" "indexComplete s"
  shows "indexComplete (exec op s)"
proof -
  from assms(1) have pw: "panelsWired s" and ww: "windowsWired s" by (simp_all add: wellformed_def)
  show ?thesis
  proof (cases op)
    case (OpenFloatingPanel options answer)
    have "indexComplete (snd (openFloatingPanel options answer s))"
      using assms(2)
      by (simp add: openFloatingPanel_state insertion_indexComplete split: option.splits sum.splits)
    with OpenFloatingPanel show ?thesis by simp
  next
    case (CloseFloatingPanel pid)
    show ?thesis
    proof (cases "map_of (floatingPanels s) pid")
      case None
      with CloseFloatingPanel assms(2) show ?thesis by (simp add: closeFloatingPanel_def)
    next
      case (Some p)
      from indexComplete_close [OF assms live_opened [OF pw Some]] Some CloseFloatingPanel
      show ?thesis by (simp add: closeFloatingPanel_def)
    qed
  next
    case (DockFloatingPanel reg pid location)
    show ?thesis
    proof (cases "map_of (floatingPanels s) pid")
      case None
      with DockFloatingPanel assms(2) show ?thesis by (simp add: dockFloatingPanel_def)
    next
      case (Some p)
      let ?s = "s\<lparr>effects := effects s @ relocation reg (panelViewId p) location\<rparr>"
      have wf: "wellformed ?s" using assms(1) by (simp add: wellformed_effects)
      from assms(2) have ic: "indexComplete ?s" by simp
      from live_opened [OF pw Some] have o: "p \<in> set (opened (effects ?s))" by simp
      from indexComplete_close [OF wf ic o] dock_close [OF Some, of reg location] DockFloatingPanel
      show ?thesis by simp
    qed
  next
    case (WindowUnload w)
    from fireUnload_cases [OF ww, of w] have "indexComplete (fireUnload w s)"
    proof (elim disjE)
      assume "fireUnload w s = s"
      with assms(2) show ?thesis by simp
    next
      assume "\<exists>p. map_of (floatingPanels s) (panelId p) = Some p \<and> panelWindow p = w \<and>
        fireUnload w s = closure p [] ((windows s ! w)\<lparr>unloaded := True\<rparr>) s"
      then obtain p where p: "map_of (floatingPanels s) (panelId p) = Some p"
        and e: "fireUnload w s = closure p [] ((windows s ! w)\<lparr>unloaded := True\<rparr>) s"
        by blast
      from closure_indexComplete [OF assms(2) pw p] e show ?thesis by simp
    next
      assume "w < length (windows s) \<and> detached s w \<and>
        fireUnload w s = rewindowed w ((windows s ! w)\<lparr>unloaded := True\<rparr>) [] s"
      with assms(2) show ?thesis by simp
    qed
    with WindowUnload show ?thesis by simp
  qed
qed

lemma consistent_exec:
  assumes "wellformed s" "consistent s"
  shows "wellformed (exec op s) \<and> consistent (exec op s)"
  using assms wellformed_exec [OF assms(1), of op] indexComplete_exec [of s op]
  by (simp add: consistent_iff)

lemma consistent_initial: "consistent (initial d)"
  by (simp add: consistent_def initial_def getFloatingPanel_def getFloatingPanelByViewId_def)

lemma consistent_execs:
  "wellformed s \<Longrightarrow> consistent s \<Longrightarrow> wellformed (execs ops s) \<and> consistent (execs ops s)"
  by (induction ops arbitrary: s) (simp_all add: consistent_exec)

subsection \<open>Overlapping calls for one view\<close>

text \<open>
  C1. The claim: however calls of \<open>openFloatingPanel\<close> for one view id are interleaved, at
  most one panel of that view exists afterwards, and no two overlapping calls both create
  a window and insert a panel. The code checks \<open>floatingPanelsByViewId\<close> before the
  \<^verbatim>\<open>await\<close> and inserts after it, with nothing in between: when two calls for
  \<open>''explorer''\<close> both begin before either resumes, both ask the provider for a window,
  both fire the open event, and \<open>getAllFloatingPanels\<close> holds two panels of the view while
  \<open>floatingPanelsByViewId\<close> knows the second only.
\<close>

theorem overlapping_open_duplicates:
  "map panelViewId (getAllFloatingPanels (after d overlappingRun)) = [''explorer'', ''explorer''] \<and>
   map panelId (getAllFloatingPanels (after d overlappingRun)) = [''floating-panel-0'', ''floating-panel-1''] \<and>
   length (openRequests (effects (after d overlappingRun))) = 2 \<and>
   map panelId (opened (effects (after d overlappingRun))) = [''floating-panel-0'', ''floating-panel-1''] \<and>
   map (panelId \<circ> snd) (floatingPanelsByViewId (after d overlappingRun)) = [''floating-panel-1'']"
  by (simp add: after_def overlappingRun_def initial_def explorerOptions_def
      openFloatingPanel_begin_def openFloatingPanel_resume_def newWindow_def
      FloatingPanel_new_def subscribeUnload_def make_id_def string_of_nat.simps digit_char_def
      windowOptions_def defaultBounds_def Let_def getAllFloatingPanels_def)

subsection \<open>Floating a view that floats already\<close>

text \<open>
  C2. When view \<open>v\<close> has a floating panel \<open>P\<close>, \<open>openFloatingPanel\<close> for \<open>v\<close> returns before
  its \<^verbatim>\<open>await\<close>: it asks \<open>P\<close>'s window for focus and returns \<open>P\<close>. Both maps are as they
  were, so \<open>getAllFloatingPanels\<close> has the same length, and the open event does not fire.
\<close>

theorem openFloatingPanel_existing:
  assumes "getFloatingPanelByViewId (viewId options) s = Some P"
  shows "openFloatingPanel_begin options s = (Returned P, bringToFront P s) \<and>
         fst (openFloatingPanel options answer s) = Inr P \<and>
         effects (snd (openFloatingPanel options answer s)) = effects s @ [WindowFocus (panelWindow P)] \<and>
         floatingPanels (snd (openFloatingPanel options answer s)) = floatingPanels s \<and>
         floatingPanelsByViewId (snd (openFloatingPanel options answer s)) = floatingPanelsByViewId s \<and>
         getAllFloatingPanels (snd (openFloatingPanel options answer s)) = getAllFloatingPanels s \<and>
         opened (effects (snd (openFloatingPanel options answer s))) = opened (effects s)"
  using assms
  by (simp add: openFloatingPanel_def openFloatingPanel_begin_def getFloatingPanelByViewId_def
      bringToFront_def getAllFloatingPanels_def)

theorem openFloatingPanel_existing_witness:
  "getFloatingPanelByViewId (viewId explorerOptions) explorerState = Some explorerPanel \<and>
   fst (openFloatingPanel explorerOptions (Inr 9) explorerState) = Inr explorerPanel \<and>
   effects (snd (openFloatingPanel explorerOptions (Inr 9) explorerState)) =
     effects explorerState @ [WindowFocus 0] \<and>
   length (getAllFloatingPanels (snd (openFloatingPanel explorerOptions (Inr 9) explorerState))) = 1"
proof -
  have h: "getFloatingPanelByViewId (viewId explorerOptions) explorerState = Some explorerPanel"
    by (simp add: getFloatingPanelByViewId_def explorerOptions_def explorerState_def)
  have w: "panelWindow explorerPanel = 0" "length (getAllFloatingPanels explorerState) = 1"
    by (simp_all add: explorerPanel_def getAllFloatingPanels_def explorerState_def)
  from openFloatingPanel_existing [OF h, of "Inr 9"] h w show ?thesis
    by simp
qed

subsection \<open>The close event\<close>




subsection \<open>Docking\<close>




subsection \<open>A window that cannot be opened\<close>

text \<open>
  C5. A rejection by the provider is passed to the caller by the resumed call, which
  leaves the state as it found it. For a whole call that reaches the provider (the view
  is not floating), nothing but the request to the provider is recorded: both maps, the
  counter and the windows are unchanged and no event fires.
\<close>

theorem openFloatingPanel_rejected:
  "openFloatingPanel_resume v (Inl e) s = (Inl e, s) \<and>
   (\<not> isViewFloating (viewId options) s \<longrightarrow>
      fst (openFloatingPanel options (Inl e) s) = Inl e \<and>
      snd (openFloatingPanel options (Inl e) s) =
        s\<lparr>effects := effects s @ [WindowOpen (windowOptions options)]\<rparr> \<and>
      floatingPanels (snd (openFloatingPanel options (Inl e) s)) = floatingPanels s \<and>
      floatingPanelsByViewId (snd (openFloatingPanel options (Inl e) s)) = floatingPanelsByViewId s \<and>
      opened (effects (snd (openFloatingPanel options (Inl e) s))) = opened (effects s) \<and>
      closed (effects (snd (openFloatingPanel options (Inl e) s))) = closed (effects s))"
  by (simp add: openFloatingPanel_def openFloatingPanel_begin_def openFloatingPanel_resume_def
      isViewFloating_def)

theorem openFloatingPanel_rejected_witness:
  "\<not> isViewFloating (viewId explorerOptions) (initial Synchronous) \<and>
   openFloatingPanel explorerOptions (Inl (Rejected ''no window'')) (initial Synchronous) =
     (Inl (Rejected ''no window''),
      (initial Synchronous)\<lparr>effects := [WindowOpen \<lparr>bounds = Some \<lparr>width = 400, height = 300\<rparr>\<rparr>]\<rparr>)"
proof -
  have h: "\<not> isViewFloating (viewId explorerOptions) (initial Synchronous)"
    by (simp add: isViewFloating_def initial_def)
  have e: "effects (initial Synchronous) = []" "windowOptions explorerOptions = \<lparr>bounds = Some \<lparr>width = 400, height = 300\<rparr>\<rparr>"
    by (simp_all add: initial_def windowOptions_def explorerOptions_def defaultBounds_def)
  from openFloatingPanel_rejected [of "viewId explorerOptions" "Rejected ''no window''" "initial Synchronous" explorerOptions]
    h e show ?thesis
    by (simp add: prod_eq_iff)
qed

subsection \<open>The two maps stay consistent\<close>

text \<open>
  C6. However the provider delivers, the invariant of the two maps holds initially and
  after every sequence of operations none of which overlaps another: \<open>openFloatingPanel\<close>, \<open>closeFloatingPanel\<close>,
  \<open>dockFloatingPanel\<close> and the cleanup at a window's unload. Each operation takes a state
  that satisfies it, and is well formed as every state of a run is, to such a state.
\<close>

theorem maps_stay_consistent:
  "wellformed (initial d) \<and> consistent (initial d) \<and>
   (wellformed s \<and> consistent s \<longrightarrow> wellformed (exec op s) \<and> consistent (exec op s)) \<and>
   wellformed (execs ops (initial d)) \<and> consistent (execs ops (initial d))"
  using consistent_exec [of s op] consistent_execs [OF wellformed_initial consistent_initial, of ops]
  by (simp add: wellformed_initial consistent_initial)

theorem maps_stay_consistent_witness:
  "execs [OpenFloatingPanel explorerOptions (Inr 7)] (initial Synchronous) = explorerState \<and>
   wellformed explorerState \<and> consistent explorerState \<and>
   consistent (exec (OpenFloatingPanel explorerOptions (Inr 8)) explorerState) \<and>
   consistent (exec (CloseFloatingPanel ''floating-panel-0'') explorerState) \<and>
   consistent (exec (DockFloatingPanel registry ''floating-panel-0'' Sidebar) explorerState) \<and>
   consistent (exec (WindowUnload 0) explorerState) \<and>
   getFloatingPanelByViewId ''explorer'' explorerState = Some explorerPanel \<and>
   getFloatingPanel (panelId explorerPanel) explorerState = Some explorerPanel"
proof -
  have e: "execs [OpenFloatingPanel explorerOptions (Inr 7)] (initial Synchronous) = explorerState"
    by (simp add: explorerState_def initial_def explorerOptions_def openFloatingPanel_def
      explorerPanel_def openFloatingPanel_begin_def openFloatingPanel_resume_def newWindow_def
      FloatingPanel_new_def subscribeUnload_def make_id_def string_of_nat.simps digit_char_def
      windowOptions_def defaultBounds_def Let_def)
  note t = maps_stay_consistent [of Synchronous _ _ "[OpenFloatingPanel explorerOptions (Inr 7)]"]
  from t e have h: "wellformed explorerState \<and> consistent explorerState" by simp
  note u = maps_stay_consistent [of Synchronous explorerState _ "[]", THEN conjunct2, THEN conjunct2,
      THEN conjunct1, rule_format, OF h]
  have g: "getFloatingPanelByViewId ''explorer'' explorerState = Some explorerPanel"
    "getFloatingPanel (panelId explorerPanel) explorerState = Some explorerPanel"
    by (simp_all add: getFloatingPanelByViewId_def getFloatingPanel_def explorerState_def
        explorerPanel_def)
  from e h u g show ?thesis by (simp del: exec.simps execs.simps)
qed

subsection \<open>The Float View command without a view id\<close>

text \<open>
  C7. The claim: without a view id the command takes the focused view and floats it. The
  code asks for the name of the focused view and then returns on both branches, so it
  does nothing whether or not a view has focus (an empty view id counts as none).
\<close>

theorem FloatViewAction_without_viewId:
  "FloatViewAction_run reg focusedView None answer s = (Inr (), s) \<and>
   FloatViewAction_run reg focusedView (Some []) answer s = (Inr (), s)"
  by (simp add: FloatViewAction_run_def truthy_def)

subsection \<open>Unknown panel ids\<close>

text \<open>
  C8. \<open>closeFloatingPanel\<close> and \<open>dockFloatingPanel\<close> with an id that \<open>floatingPanels\<close> does
  not hold return the state they were given: no map changes, no event fires, the
  registry is neither consulted nor asked to move a view.
\<close>

theorem unknown_panel_noop:
  assumes "getFloatingPanel pid s = None"
  shows "closeFloatingPanel pid s = s \<and> dockFloatingPanel reg pid location s = s"
  using assms by (simp add: closeFloatingPanel_def dockFloatingPanel_def getFloatingPanel_def)

theorem unknown_panel_noop_witness:
  "getFloatingPanel ''floating-panel-5'' explorerState = None \<and>
   closeFloatingPanel ''floating-panel-5'' explorerState = explorerState \<and>
   dockFloatingPanel registry ''floating-panel-5'' Sidebar explorerState = explorerState"
proof -
  have h: "getFloatingPanel ''floating-panel-5'' explorerState = None"
    by (simp add: getFloatingPanel_def explorerState_def)
  from unknown_panel_noop [OF h] h show ?thesis
    by simp
qed

subsection \<open>Panel ids\<close>

text \<open>
  C9. A resumed call that was given a window constructs its panel with the id made from
  the counter and increments the counter. In every state of every run the ids of the
  panels ever opened, closed ones included, are the ids made from 0, 1, 2, ... below the
  counter, in that order; these are pairwise distinct, decimal rendering being injective.
\<close>

theorem panel_ids_never_reused:
  "map panelId (opened (effects (after d as))) = map make_id [0..<idCounter (after d as)] \<and>
   distinct (map panelId (opened (effects (after d as)))) \<and>
   inj make_id \<and>
   openFloatingPanel_resume v (Inr c) s = (Inr (newPanel v c s), insertion v c s) \<and>
   panelId (newPanel v c s) = make_id (idCounter s) \<and>
   idCounter (insertion v c s) = Suc (idCounter s) \<and>
   opened (effects (insertion v c s)) = opened (effects s) @ [newPanel v c s]"
proof -
  have "idsInOrder (after d as)"
    using wellformed_after [of d as] by (simp add: wellformed_def)
  then have e: "map panelId (opened (effects (after d as))) = map make_id [0..<idCounter (after d as)]"
    by (simp add: idsInOrder_def)
  have "distinct (map make_id [0..<idCounter (after d as)])"
    by (simp add: distinct_map inj_on_def)
  with e show ?thesis
    by (simp add: inj_make_id resume_Inr insertion_def)
qed

subsection \<open>Default bounds\<close>

text \<open>
  C10. A call of \<open>openFloatingPanel\<close> without bounds asks the provider for a window of
  400 by 300; this is the one request it makes, and it makes none when the view floats
  already. The Float View command passes 500 by 400 itself, and that is what the provider
  is asked for then.
\<close>

theorem openFloatingPanel_default_bounds:
  "(bounds options = None \<longrightarrow>
      windowOptions options = \<lparr>bounds = Some \<lparr>width = 400, height = 300\<rparr>\<rparr> \<and>
      openRequests (effects (snd (openFloatingPanel_begin options s))) =
        openRequests (effects s) @
          (if isViewFloating (viewId options) s then []
           else [\<lparr>bounds = Some \<lparr>width = 400, height = 300\<rparr>\<rparr>]) \<and>
      openRequests (effects (snd (openFloatingPanel options answer s))) =
        openRequests (effects s) @
          (if isViewFloating (viewId options) s then []
           else [\<lparr>bounds = Some \<lparr>width = 400, height = 300\<rparr>\<rparr>])) \<and>
   (v \<noteq> [] \<and> reg v \<noteq> None \<and> \<not> isViewFloating v s \<longrightarrow>
      openRequests (effects (snd (FloatViewAction_run reg focusedView (Some v) answer s))) =
        openRequests (effects s) @ [\<lparr>bounds = Some \<lparr>width = 500, height = 400\<rparr>\<rparr>])"
  by (cases answer)
    (auto simp add: openFloatingPanel_def openFloatingPanel_begin_def openFloatingPanel_resume_def
      isViewFloating_def windowOptions_def defaultBounds_def bringToFront_def newWindow_def
      FloatingPanel_new_def subscribeUnload_def Let_def FloatViewAction_run_def truthy_def
      split: option.splits prod.splits sum.splits)

theorem openFloatingPanel_default_bounds_witness:
  "bounds explorerOptions = None \<and> \<not> isViewFloating (viewId explorerOptions) (initial Synchronous) \<and>
   openRequests (effects (snd (openFloatingPanel explorerOptions (Inr 7) (initial Synchronous)))) =
     [\<lparr>bounds = Some \<lparr>width = 400, height = 300\<rparr>\<rparr>] \<and>
   ''explorer'' \<noteq> [] \<and> registry ''explorer'' \<noteq> None \<and> \<not> isViewFloating ''explorer'' (initial Synchronous) \<and>
   openRequests (effects (snd (FloatViewAction_run registry None (Some ''explorer'') (Inr 7) (initial Synchronous)))) =
     [\<lparr>bounds = Some \<lparr>width = 500, height = 400\<rparr>\<rparr>]"
proof -
  have h: "bounds explorerOptions = None" "\<not> isViewFloating (viewId explorerOptions) (initial Synchronous)"
    "''explorer'' \<noteq> []" "registry ''explorer'' \<noteq> None" "\<not> isViewFloating ''explorer'' (initial Synchronous)"
    by (simp_all add: explorerOptions_def isViewFloating_def initial_def registry_def)
  have e: "openRequests (effects (initial Synchronous)) = []"
    by (simp add: initial_def)
  from openFloatingPanel_default_bounds
         [of explorerOptions "initial Synchronous" "Inr 7" "''explorer''" registry None]
    h e show ?thesis
    by simp
qed

end
